theory Spec2Isabelle
  imports Complex_Main "HOL-Library.Char_ord" "HOL-Library.List_Lexorder" "HOL-Library.AList"
    "HOL-Library.Multiset"
begin

section \<open>Numeric values and floating-point error handling of the array library\<close>

text \<open>
  The notebook computes with the array library's double-precision numbers. They are
  modelled in exact arithmetic: a finite value is a real number, and the three non-finite
  values a division can produce are kept as values of their own. Rounding and signed
  zeros are not modelled (a zero divisor counts as positive zero).
\<close>

datatype npfloat = Num real | PInf | NInf | NaN

datatype py_error = ValueError | FloatingPointError | OSError | UnidentifiedImageError

datatype fpflag = DivideByZero | Invalid

datatype errmode = Ignore | Warn | Raise

datatype warning = FPWarning fpflag | MeanOfEmptySlice | DegreesOfFreedom

text \<open>
  The floating-point error state that \<^verbatim>\<open>np.seterr\<close> changes; only the two
  categories the notebook sets are kept (exact arithmetic neither overflows nor underflows).
\<close>

record errstate =
  divide_mode :: errmode
  invalid_mode :: errmode

definition default_errstate :: errstate where
  "default_errstate = \<lparr>divide_mode = Warn, invalid_mode = Warn\<rparr>"

definition np_seterr :: "errmode \<Rightarrow> errmode \<Rightarrow> errstate \<Rightarrow> errstate" where
  "np_seterr d i st = st\<lparr>divide_mode := d, invalid_mode := i\<rparr>"

text \<open>\<^verbatim>\<open>np.seterr(divide='ignore', invalid='ignore')\<close>, as the notebook calls it.\<close>

definition notebook_errstate :: errstate where
  "notebook_errstate = np_seterr Ignore Ignore default_errstate"

fun np_div :: "npfloat \<Rightarrow> npfloat \<Rightarrow> npfloat" where
  "np_div (Num a) (Num b) =
     (if b = 0 then (if a = 0 then NaN else if 0 < a then PInf else NInf) else Num (a / b))"
| "np_div (Num a) PInf = Num 0"
| "np_div (Num a) NInf = Num 0"
| "np_div PInf (Num b) = (if 0 \<le> b then PInf else NInf)"
| "np_div NInf (Num b) = (if 0 \<le> b then NInf else PInf)"
| "np_div _ _ = NaN"

fun div_flags :: "npfloat \<Rightarrow> npfloat \<Rightarrow> fpflag list" where
  "div_flags (Num a) (Num b) =
     (if b = 0 then (if a = 0 then [Invalid] else [DivideByZero]) else [])"
| "div_flags PInf PInf = [Invalid]"
| "div_flags PInf NInf = [Invalid]"
| "div_flags NInf PInf = [Invalid]"
| "div_flags NInf NInf = [Invalid]"
| "div_flags _ _ = []"

fun np_mul :: "npfloat \<Rightarrow> npfloat \<Rightarrow> npfloat" where
  "np_mul (Num a) (Num b) = Num (a * b)"
| "np_mul (Num a) PInf = (if a = 0 then NaN else if 0 < a then PInf else NInf)"
| "np_mul (Num a) NInf = (if a = 0 then NaN else if 0 < a then NInf else PInf)"
| "np_mul PInf (Num b) = (if b = 0 then NaN else if 0 < b then PInf else NInf)"
| "np_mul NInf (Num b) = (if b = 0 then NaN else if 0 < b then NInf else PInf)"
| "np_mul PInf PInf = PInf"
| "np_mul PInf NInf = NInf"
| "np_mul NInf PInf = NInf"
| "np_mul NInf NInf = PInf"
| "np_mul _ _ = NaN"

fun mul_flags :: "npfloat \<Rightarrow> npfloat \<Rightarrow> fpflag list" where
  "mul_flags (Num a) PInf = (if a = 0 then [Invalid] else [])"
| "mul_flags (Num a) NInf = (if a = 0 then [Invalid] else [])"
| "mul_flags PInf (Num b) = (if b = 0 then [Invalid] else [])"
| "mul_flags NInf (Num b) = (if b = 0 then [Invalid] else [])"
| "mul_flags _ _ = []"

fun np_sqrt :: "npfloat \<Rightarrow> npfloat" where
  "np_sqrt (Num a) = (if a < 0 then NaN else Num (sqrt a))"
| "np_sqrt PInf = PInf"
| "np_sqrt NInf = NaN"
| "np_sqrt NaN = NaN"

fun sqrt_flags :: "npfloat \<Rightarrow> fpflag list" where
  "sqrt_flags (Num a) = (if a < 0 then [Invalid] else [])"
| "sqrt_flags NInf = [Invalid]"
| "sqrt_flags _ = []"

text \<open>\<^verbatim>\<open>np.clip(c, lo, hi)\<close>: \<^verbatim>\<open>minimum(maximum(c, lo), hi)\<close>, which keeps NaN.\<close>

fun np_clip :: "real \<Rightarrow> real \<Rightarrow> npfloat \<Rightarrow> npfloat" where
  "np_clip lo hi (Num a) = Num (min (max a lo) hi)"
| "np_clip lo hi PInf = Num hi"
| "np_clip lo hi NInf = Num lo"
| "np_clip lo hi NaN = NaN"

text \<open>
  One vectorised call raises each flag at most once, whatever the number of elements that
  set it; the flags of a call are reported in a fixed order.
\<close>

definition call_flags :: "fpflag list \<Rightarrow> fpflag list" where
  "call_flags fs = filter (\<lambda>f. f \<in> set fs) [DivideByZero, Invalid]"

fun mode_of :: "errstate \<Rightarrow> fpflag \<Rightarrow> errmode" where
  "mode_of st DivideByZero = divide_mode st"
| "mode_of st Invalid = invalid_mode st"

text \<open>
  What the error state makes of the flags of a sequence of calls: a flag whose mode is
  \<open>Raise\<close> aborts with \<^verbatim>\<open>FloatingPointError\<close>, one whose mode is \<open>Warn\<close> emits a
  warning, one whose mode is \<open>Ignore\<close> leaves no trace.
\<close>

definition handle_flags :: "errstate \<Rightarrow> fpflag list list \<Rightarrow> py_error + warning list" where
  "handle_flags st calls =
     (let fs = concat (map call_flags calls)
      in if \<exists>f \<in> set fs. mode_of st f = Raise then Inl FloatingPointError
         else Inr (map FPWarning (filter (\<lambda>f. mode_of st f = Warn) fs)))"

section \<open>The correlation of two series\<close>

text \<open>
  \<^verbatim>\<open>np.cov(x, y)\<close> stacks the two series as the rows of \<open>X\<close> (which fails on rows of
  different lengths), subtracts from each row its mean, takes the products of the rows
  and scales them by \<open>1 / fact\<close>, where \<open>fact\<close> is the number of observations minus one,
  replaced by \<open>0.0\<close> when that is not positive. The mean of an empty row is \<open>0 / 0\<close>; it
  is subtracted from no element, so the rows stay finite and only its flag is kept.
\<close>

definition demean :: "real list \<Rightarrow> real list" where
  "demean row = map (\<lambda>v. v - sum_list row / real (length row)) row"

definition dot :: "real list \<Rightarrow> real list \<Rightarrow> real" where
  "dot r s = sum_list (map2 (*) r s)"

definition cov_fact :: "nat \<Rightarrow> real" where
  "cov_fact n = (if int n - 1 \<le> 0 then 0 else real_of_int (int n - 1))"

definition cov ::
  "real list \<Rightarrow> real list \<Rightarrow> py_error + (npfloat list list \<times> fpflag list list \<times> warning list)" where
  "cov x y =
     (if length x \<noteq> length y then Inl ValueError
      else
        let X = [x, y];
            n = length x;
            pyw = (if n = 0 then [MeanOfEmptySlice] else []) @
                  (if int n - 1 \<le> 0 then [DegreesOfFreedom] else []);
            Xd = map demean X;
            c = map (\<lambda>r. map (\<lambda>s. dot r s) Xd) Xd;
            f = np_div (Num 1) (Num (cov_fact n));
            c' = map (map (\<lambda>v. np_mul (Num v) f)) c
        in Inr (c',
                [div_flags (Num 0) (Num (real n)),
                 div_flags (Num 1) (Num (cov_fact n)),
                 concat (map (\<lambda>row. concat (map (\<lambda>v. mul_flags (Num v) f) row)) c)],
                pyw))"

definition diag :: "'a list list \<Rightarrow> 'a list" where
  "diag c = map (\<lambda>i. c ! i ! i) [0..<length c]"

text \<open>
  \<^verbatim>\<open>np.corrcoef(x, y)\<close>: the covariance matrix, each row divided by the standard
  deviation of its variable, each column likewise, the result clipped to \<open>[-1, 1]\<close>.
\<close>

definition corrcoef ::
  "errstate \<Rightarrow> real list \<Rightarrow> real list \<Rightarrow> py_error + (npfloat list list \<times> warning list)" where
  "corrcoef st x y =
     (case cov x y of
        Inl e \<Rightarrow> Inl e
      | Inr (c, calls, pyw) \<Rightarrow>
          let d = diag c;
              stddev = map np_sqrt d;
              c1 = map2 (\<lambda>row s. map (\<lambda>v. np_div v s) row) c stddev;
              c2 = map (\<lambda>row. map2 np_div row stddev) c1;
              calls' = calls @
                [concat (map sqrt_flags d),
                 concat (map2 (\<lambda>row s. concat (map (\<lambda>v. div_flags v s) row)) c stddev),
                 concat (map (\<lambda>row. concat (map2 div_flags row stddev)) c1)]
          in (case handle_flags st calls' of
                Inl e \<Rightarrow> Inl e
              | Inr fw \<Rightarrow> Inr (map (map (np_clip (-1) 1)) c2, pyw @ fw)))"

text \<open>The notebook's function: entry \<open>[0, 1]\<close> of the correlation matrix.\<close>

definition get_corrcoef ::
  "errstate \<Rightarrow> real list \<Rightarrow> real list \<Rightarrow> py_error + (npfloat \<times> warning list)" where
  "get_corrcoef st inarray1 inarray2 =
     (case corrcoef st inarray1 inarray2 of
        Inl e \<Rightarrow> Inl e
      | Inr (c, ws) \<Rightarrow> Inr (c ! 0 ! 1, ws))"

text \<open>A series of zero variance: all its values are equal.\<close>

definition zero_variance :: "real list \<Rightarrow> bool" where
  "zero_variance xs = (\<forall>v \<in> set xs. \<forall>w \<in> set xs. v = w)"

section \<open>Gridded datasets and their time axes\<close>

text \<open>
  A date of the 360-day calendar: twelve months of thirty days. All the dates the notebook
  builds are at midnight, so the time of day is left out.
\<close>

record cfdate =
  cf_year :: int
  cf_month :: int
  cf_day :: int

definition day_number :: "cfdate \<Rightarrow> int" where
  "day_number d = cf_year d * 360 + (cf_month d - 1) * 30 + (cf_day d - 1)"

definition date_of_day_number :: "int \<Rightarrow> cfdate" where
  "date_of_day_number n = \<lparr>cf_year = n div 360, cf_month = n mod 360 div 30 + 1, cf_day = n mod 30 + 1\<rparr>"

text \<open>
  \<^verbatim>\<open>cftime.num2date(k, 'months since <ref>', '360_day')\<close>: a month of this calendar
  is thirty days.
\<close>

definition num2date_months :: "cfdate \<Rightarrow> int \<Rightarrow> cfdate" where
  "num2date_months ref k = date_of_day_number (day_number ref + 30 * k)"

definition np_arange :: "nat \<Rightarrow> nat \<Rightarrow> int list" where
  "np_arange a b = map int [a..<b]"

text \<open>The time axis assigned to the CMIP6 dataset: monthly, from January 1850.\<close>

definition time_360_ref_cmip6 :: "cfdate list" where
  "time_360_ref_cmip6 =
     map (num2date_months \<lparr>cf_year = 1850, cf_month = 1, cf_day = 15\<rparr>)
       (np_arange 0 ((2014 - 1850 + 1) * 12))"

text \<open>
  The time axis assigned to the ERA5 dataset: monthly, from January 1979, without its
  last two entries (\<^verbatim>\<open>time_360_ref[0:time_360_ref.size-2]\<close>).
\<close>

definition time_360_ref_era5 :: "cfdate list" where
  "time_360_ref_era5 =
     map (num2date_months \<lparr>cf_year = 1979, cf_month = 1, cf_day = 15\<rparr>)
       (np_arange 0 ((2020 - 1979 + 1) * 12))"

definition time_360_ref_new :: "cfdate list" where
  "time_360_ref_new = take (length time_360_ref_era5 - 2) time_360_ref_era5"

text \<open>
  A dataset: the precipitation \<open>pr\<close> indexed by time, latitude and longitude (in that
  order, outermost first), with its three coordinate axes.
\<close>

record 'v dataset =
  time :: "cfdate list"
  lat :: "real list"
  lon :: "real list"
  pr :: "'v list list list"

text \<open>The shape of the data agrees with the axes, as every dataset of the library does.\<close>

definition wellshaped :: "'v dataset \<Rightarrow> bool" where
  "wellshaped ds =
     (length (pr ds) = length (time ds) \<and>
      (\<forall>slab \<in> set (pr ds). length slab = length (lat ds) \<and>
         (\<forall>row \<in> set slab. length row = length (lon ds))))"

text \<open>
  \<^verbatim>\<open>ds.assign_coords(time=new)\<close> fails when the new axis does not have the size of
  the time dimension.
\<close>

definition assign_coords_time :: "cfdate list \<Rightarrow> 'v dataset \<Rightarrow> py_error + 'v dataset" where
  "assign_coords_time new ds =
     (if length new \<noteq> length (pr ds) then Inl ValueError else Inr (ds\<lparr>time := new\<rparr>))"

text \<open>\<^verbatim>\<open>ds_tp_mon.assign_coords(lon=ds_tp_mon.lon+180)\<close>\<close>

definition assign_coords_lon_plus_180 :: "'v dataset \<Rightarrow> 'v dataset" where
  "assign_coords_lon_plus_180 ds = ds\<lparr>lon := map (\<lambda>x. x + 180) (lon ds)\<rparr>"

text \<open>
  \<^verbatim>\<open>ds.sel(time=slice(str(year), str(year)))\<close>: the entries whose date lies between
  the first and the last day of that year, both included.
\<close>

definition sel_year :: "int \<Rightarrow> 'v dataset \<Rightarrow> 'v dataset" where
  "sel_year y ds =
     (let keep = filter (\<lambda>(t, slab).
                   day_number \<lparr>cf_year = y, cf_month = 1, cf_day = 1\<rparr> \<le> day_number t \<and>
                   day_number t \<le> day_number \<lparr>cf_year = y, cf_month = 12, cf_day = 30\<rparr>)
                   (zip (time ds) (pr ds))
      in ds\<lparr>time := map fst keep, pr := map snd keep\<rparr>)"

text \<open>The series along time of one grid cell, which is what the correlation function receives.\<close>

definition cell_series :: "'v dataset \<Rightarrow> nat \<Rightarrow> nat \<Rightarrow> 'v list" where
  "cell_series ds i j = map (\<lambda>slab. slab ! i ! j) (pr ds)"

section \<open>Interpolation onto another grid\<close>

text \<open>
  \<^verbatim>\<open>ds.interp(lat=new_lat, lon=new_lon)\<close> sorts the dataset along both axes, then
  interpolates each time step linearly on the rectilinear grid: along each axis it finds
  the interval of the target coordinate and the normalised distance from its lower end,
  and it sums the values at the four corners with the products of the distances as
  weights. A target outside the range of an axis gives NaN. The grid must have two points
  at least along each axis, strictly ascending once sorted.
\<close>

definition argsort :: "real list \<Rightarrow> nat list" where
  "argsort xs = map snd (sort_key fst (zip xs [0..<length xs]))"

definition sortby_lat :: "'v dataset \<Rightarrow> 'v dataset" where
  "sortby_lat ds =
     (let order = argsort (lat ds)
      in ds\<lparr>lat := map (\<lambda>k. lat ds ! k) order,
             pr := map (\<lambda>slab. map (\<lambda>k. slab ! k) order) (pr ds)\<rparr>)"

definition sortby_lon :: "'v dataset \<Rightarrow> 'v dataset" where
  "sortby_lon ds =
     (let order = argsort (lon ds)
      in ds\<lparr>lon := map (\<lambda>k. lon ds ! k) order,
             pr := map (map (\<lambda>row. map (\<lambda>k. row ! k) order)) (pr ds)\<rparr>)"

text \<open>\<^verbatim>\<open>np.searchsorted(grid, x)\<close>: the first index whose element is not below \<open>x\<close>.\<close>

definition searchsorted :: "real list \<Rightarrow> real \<Rightarrow> nat" where
  "searchsorted grid x = length (takeWhile (\<lambda>g. g < x) grid)"

definition find_indices :: "real list \<Rightarrow> real \<Rightarrow> nat \<times> real \<times> bool" where
  "find_indices grid x =
     (let i0 = int (searchsorted grid x) - 1;
          i1 = (if i0 < 0 then 0 else i0);
          i2 = (if int (length grid) - 2 < i1 then int (length grid) - 2 else i1);
          i = nat i2
      in (i, (x - grid ! i) / (grid ! (i + 1) - grid ! i),
          x < grid ! 0 \<or> grid ! (length grid - 1) < x))"

definition evaluate_linear :: "real list list \<Rightarrow> nat \<times> real \<Rightarrow> nat \<times> real \<Rightarrow> real" where
  "evaluate_linear vals a b =
     (case a of (i, s) \<Rightarrow> case b of (j, t) \<Rightarrow>
        0 + vals ! i ! j * ((1 - s) * (1 - t))
          + vals ! i ! (j + 1) * ((1 - s) * t)
          + vals ! (i + 1) ! j * (s * (1 - t))
          + vals ! (i + 1) ! (j + 1) * (s * t))"

definition interpn_linear ::
  "real list \<Rightarrow> real list \<Rightarrow> real list list \<Rightarrow> real \<Rightarrow> real \<Rightarrow> npfloat" where
  "interpn_linear lats lons vals la lo =
     (case find_indices lats la of (i, s, out_lat) \<Rightarrow>
      case find_indices lons lo of (j, t, out_lon) \<Rightarrow>
        if out_lat \<or> out_lon then NaN else Num (evaluate_linear vals (i, s) (j, t)))"

definition interp :: "real list \<Rightarrow> real list \<Rightarrow> real dataset \<Rightarrow> py_error + npfloat dataset" where
  "interp new_lat new_lon ds =
     (let s = sortby_lon (sortby_lat ds)
      in if length (lat s) < 2 \<or> length (lon s) < 2 \<or>
            \<not> sorted_wrt (<) (lat s) \<or> \<not> sorted_wrt (<) (lon s)
         then Inl ValueError
         else Inr \<lparr>time = time s, lat = new_lat, lon = new_lon,
                   pr = map (\<lambda>slab. map (\<lambda>la. map (\<lambda>lo.
                          interpn_linear (lat s) (lon s) slab la lo) new_lon) new_lat) (pr s)\<rparr>)"

section \<open>Frames and the animation on disk\<close>

text \<open>Python's \<^verbatim>\<open>str\<close> on an integer: its decimal digits, after a minus sign if negative.\<close>

definition digit_char :: "nat \<Rightarrow> char" where
  "digit_char d = ''0123456789'' ! d"

fun str_nat :: "nat \<Rightarrow> string" where
  "str_nat n = (if n < 10 then [digit_char n] else str_nat (n div 10) @ [digit_char (n mod 10)])"

declare str_nat.simps [simp del]

definition str :: "int \<Rightarrow> string" where
  "str i = (if i < 0 then ''-'' @ str_nat (nat (- i)) else str_nat (nat i))"

text \<open>\<^verbatim>\<open>f"output/Correlation_of_Pr_CMIP6_vs_ERA5_{year}.png"\<close>\<close>

definition frame_path :: "int \<Rightarrow> string" where
  "frame_path year = ''output/Correlation_of_Pr_CMIP6_vs_ERA5_'' @ str year @ ''.png''"

text \<open>
  What the working directory holds at \<^verbatim>\<open>output\<close>: nothing, something that is not a
  directory, or a directory. The entries of the directory are listed in the order the
  operating system reports them, which is arbitrary; an entry is an image of one frame,
  an animation of several, some other file, or a subdirectory.
\<close>

datatype 'img entry = PNG 'img | GIF "'img list" | OtherFile | SubDir

datatype 'img node = Absent | NotDir | Dir "(string \<times> 'img entry) list"

text \<open>\<^verbatim>\<open>if not os.path.exists(outdir): os.mkdir(outdir)\<close>\<close>

definition ensure_outdir :: "'img node \<Rightarrow> 'img node" where
  "ensure_outdir node = (case node of Absent \<Rightarrow> Dir [] | _ \<Rightarrow> node)"

text \<open>The name of the entry of \<^verbatim>\<open>output\<close> that a path denotes, if it denotes one.\<close>

definition in_outdir :: "string \<Rightarrow> string option" where
  "in_outdir path =
     (if take 7 path = ''output/'' \<and> drop 7 path \<noteq> [] \<and> CHR ''/'' \<notin> set (drop 7 path)
      then Some (drop 7 path) else None)"

definition write_file :: "string \<Rightarrow> 'img entry \<Rightarrow> 'img node \<Rightarrow> py_error + 'img node" where
  "write_file path e node =
     (case node of
        Dir es \<Rightarrow>
          (case in_outdir path of
             None \<Rightarrow> Inl OSError
           | Some n \<Rightarrow>
               if map_of es n = Some SubDir then Inl OSError
               else Inr (Dir (AList.update n e es)))
      | _ \<Rightarrow> Inl OSError)"

definition savefig :: "string \<Rightarrow> 'img \<Rightarrow> 'img node \<Rightarrow> py_error + 'img node" where
  "savefig path img node = write_file path (PNG img) node"

definition os_remove :: "string \<Rightarrow> 'img node \<Rightarrow> py_error + 'img node" where
  "os_remove path node =
     (case node of
        Dir es \<Rightarrow>
          (case in_outdir path of
             None \<Rightarrow> Inl OSError
           | Some n \<Rightarrow>
               (case map_of es n of
                  None \<Rightarrow> Inl OSError
                | Some SubDir \<Rightarrow> Inl OSError
                | Some _ \<Rightarrow> Inr (Dir (AList.delete n es))))
      | _ \<Rightarrow> Inl OSError)"

text \<open>
  \<^verbatim>\<open>Image.open(path)\<close>, as the sequence of the frames of the image.
\<close>

definition image_open :: "'img node \<Rightarrow> string \<Rightarrow> py_error + 'img list" where
  "image_open node path =
     (case node of
        Dir es \<Rightarrow>
          (case in_outdir path of
             None \<Rightarrow> Inl OSError
           | Some n \<Rightarrow>
               (case map_of es n of
                  None \<Rightarrow> Inl OSError
                | Some (PNG img) \<Rightarrow> Inr [img]
                | Some (GIF imgs) \<Rightarrow> Inr imgs
                | Some OtherFile \<Rightarrow> Inl UnidentifiedImageError
                | Some SubDir \<Rightarrow> Inl OSError))
      | _ \<Rightarrow> Inl OSError)"

text \<open>
  Whether an entry name matches \<^verbatim>\<open>Correlation_of_Pr_CMIP6_vs_ERA5_*.png\<close>, and
  \<^verbatim>\<open>glob.glob('output/Correlation_of_Pr_CMIP6_vs_ERA5_*.png')\<close>, in listing order.
\<close>

definition fnmatch_frame :: "string \<Rightarrow> bool" where
  "fnmatch_frame n =
     (take 32 n = ''Correlation_of_Pr_CMIP6_vs_ERA5_'' \<and> 36 \<le> length n \<and>
      drop (length n - 4) n = ''.png'')"

definition glob_frames :: "'img node \<Rightarrow> string list" where
  "glob_frames node =
     (case node of
        Dir es \<Rightarrow> map (\<lambda>n. ''output/'' @ n) (filter fnmatch_frame (map fst es))
      | _ \<Rightarrow> [])"

text \<open>A \<^verbatim>\<open>for\<close> loop and a list comprehension whose bodies may raise.\<close>

fun for_each :: "'a list \<Rightarrow> ('a \<Rightarrow> 's \<Rightarrow> py_error + 's) \<Rightarrow> 's \<Rightarrow> py_error + 's" where
  "for_each [] body s = Inr s"
| "for_each (x # xs) body s =
     (case body x s of Inl e \<Rightarrow> Inl e | Inr s' \<Rightarrow> for_each xs body s')"

fun collect :: "('a \<Rightarrow> py_error + 'b) \<Rightarrow> 'a list \<Rightarrow> py_error + 'b list" where
  "collect f [] = Inr []"
| "collect f (x # xs) =
     (case f x of
        Inl e \<Rightarrow> Inl e
      | Inr y \<Rightarrow> (case collect f xs of Inl e \<Rightarrow> Inl e | Inr ys \<Rightarrow> Inr (y # ys)))"

text \<open>
  The frame generation loop. What the plot of a year looks like is a parameter: \<open>render\<close>
  stands for the computation of the year's correlation field and its drawing.
\<close>

definition make_frames :: "(int \<Rightarrow> 'img) \<Rightarrow> 'img node \<Rightarrow> py_error + 'img node" where
  "make_frames render node =
     for_each [0..<36]
       (\<lambda>i. let year = 1979 + int i in savefig (frame_path year) (render year))
       (ensure_outdir node)"

text \<open>
  The assembly of the animation from the frames in sorted order, and the cleanup. The
  unpacking \<^verbatim>\<open>img, *imgs = [...]\<close> fails on an empty list.
\<close>

definition make_gif :: "'img node \<Rightarrow> py_error + 'img node" where
  "make_gif node =
     (case collect (image_open node) (sort (glob_frames node)) of
        Inl e \<Rightarrow> Inl e
      | Inr [] \<Rightarrow> Inl ValueError
      | Inr (img # imgs) \<Rightarrow>
          (case write_file ''output/correlation.gif'' (GIF (concat (img # imgs))) node of
             Inl e \<Rightarrow> Inl e
           | Inr node' \<Rightarrow> for_each (glob_frames node') os_remove node'))"

definition make_animation :: "(int \<Rightarrow> 'img) \<Rightarrow> 'img node \<Rightarrow> py_error + 'img node" where
  "make_animation render node =
     (case make_frames render node of Inl e \<Rightarrow> Inl e | Inr node' \<Rightarrow> make_gif node')"

text \<open>
  Four notions to state what a run leaves behind: the years the loop goes through, the
  name of a frame inside \<^verbatim>\<open>output\<close>, the entry found at a path, and the frames of
  \<^verbatim>\<open>output/correlation.gif\<close> after a run of both cells (none if the run raises).
\<close>

definition frame_years :: "int list" where
  "frame_years = map (\<lambda>i. 1979 + int i) [0..<36]"

definition frame_name :: "int \<Rightarrow> string" where
  "frame_name year = ''Correlation_of_Pr_CMIP6_vs_ERA5_'' @ str year @ ''.png''"

definition entry_at :: "'img node \<Rightarrow> string \<Rightarrow> 'img entry option" where
  "entry_at node path =
     (case node of
        Dir es \<Rightarrow> (case in_outdir path of None \<Rightarrow> None | Some n \<Rightarrow> map_of es n)
      | _ \<Rightarrow> None)"

definition animation_frames :: "(int \<Rightarrow> 'img) \<Rightarrow> 'img node \<Rightarrow> 'img list option" where
  "animation_frames render node =
     (case make_animation render node of
        Inl e \<Rightarrow> None
      | Inr node' \<Rightarrow>
          (case entry_at node' ''output/correlation.gif'' of
             Some (GIF imgs) \<Rightarrow> Some imgs
           | _ \<Rightarrow> None))"

section \<open>Properties of the correlation\<close>

subsection \<open>Unfolding the correlation of two series of equal length\<close>

lemma cov_unfold:
  "length a = length b \<Longrightarrow> cov a b =
     Inr ([[np_mul (Num (dot (demean a) (demean a))) (np_div (Num 1) (Num (cov_fact (length a)))),
            np_mul (Num (dot (demean a) (demean b))) (np_div (Num 1) (Num (cov_fact (length a))))],
           [np_mul (Num (dot (demean b) (demean a))) (np_div (Num 1) (Num (cov_fact (length a)))),
            np_mul (Num (dot (demean b) (demean b))) (np_div (Num 1) (Num (cov_fact (length a))))]],
          [div_flags (Num 0) (Num (real (length a))),
           div_flags (Num 1) (Num (cov_fact (length a))),
           mul_flags (Num (dot (demean a) (demean a))) (np_div (Num 1) (Num (cov_fact (length a)))) @
           mul_flags (Num (dot (demean a) (demean b))) (np_div (Num 1) (Num (cov_fact (length a)))) @
           mul_flags (Num (dot (demean b) (demean a))) (np_div (Num 1) (Num (cov_fact (length a)))) @
           mul_flags (Num (dot (demean b) (demean b))) (np_div (Num 1) (Num (cov_fact (length a))))],
          (if length a = 0 then [MeanOfEmptySlice] else []) @
          (if int (length a) - 1 \<le> 0 then [DegreesOfFreedom] else []))"
  unfolding cov_def Let_def by (simp del: np_div.simps np_mul.simps mul_flags.simps div_flags.simps)

lemma corrcoef_of_cov:
  assumes "cov a b = Inr ([[c00, c01], [c10, c11]], calls, pyw)"
  shows "corrcoef st a b =
     (case handle_flags st (calls @
          [sqrt_flags c00 @ sqrt_flags c11,
           div_flags c00 (np_sqrt c00) @ div_flags c01 (np_sqrt c00) @
           div_flags c10 (np_sqrt c11) @ div_flags c11 (np_sqrt c11),
           div_flags (np_div c00 (np_sqrt c00)) (np_sqrt c00) @
           div_flags (np_div c01 (np_sqrt c00)) (np_sqrt c11) @
           div_flags (np_div c10 (np_sqrt c11)) (np_sqrt c00) @
           div_flags (np_div c11 (np_sqrt c11)) (np_sqrt c11)]) of
        Inl e \<Rightarrow> Inl e
      | Inr fw \<Rightarrow>
          Inr ([[np_clip (-1) 1 (np_div (np_div c00 (np_sqrt c00)) (np_sqrt c00)),
                 np_clip (-1) 1 (np_div (np_div c01 (np_sqrt c00)) (np_sqrt c11))],
                [np_clip (-1) 1 (np_div (np_div c10 (np_sqrt c11)) (np_sqrt c00)),
                 np_clip (-1) 1 (np_div (np_div c11 (np_sqrt c11)) (np_sqrt c11))]],
               pyw @ fw))"
  unfolding corrcoef_def assms diag_def Let_def
  by (simp cong: sum.case_cong)





lemmas np_arith_simps = np_div.simps np_mul.simps np_sqrt.simps np_clip.simps
  div_flags.simps mul_flags.simps sqrt_flags.simps

lemma get_corrcoef_unfold:
  assumes "length a = length b"
  shows "get_corrcoef st a b =
    (let f = np_div (Num 1) (Num (cov_fact (length a)));
         c00 = np_mul (Num (dot (demean a) (demean a))) f;
         c01 = np_mul (Num (dot (demean a) (demean b))) f;
         c10 = np_mul (Num (dot (demean b) (demean a))) f;
         c11 = np_mul (Num (dot (demean b) (demean b))) f;
         s0 = np_sqrt c00; s1 = np_sqrt c11
     in case handle_flags st
          [div_flags (Num 0) (Num (real (length a))),
           div_flags (Num 1) (Num (cov_fact (length a))),
           mul_flags (Num (dot (demean a) (demean a))) f @ mul_flags (Num (dot (demean a) (demean b))) f @
           mul_flags (Num (dot (demean b) (demean a))) f @ mul_flags (Num (dot (demean b) (demean b))) f,
           sqrt_flags c00 @ sqrt_flags c11,
           div_flags c00 s0 @ div_flags c01 s0 @ div_flags c10 s1 @ div_flags c11 s1,
           div_flags (np_div c00 s0) s0 @ div_flags (np_div c01 s0) s1 @
           div_flags (np_div c10 s1) s0 @ div_flags (np_div c11 s1) s1]
        of Inl e \<Rightarrow> Inl e
         | Inr fw \<Rightarrow> Inr (np_clip (-1) 1 (np_div (np_div c01 s0) s1),
             ((if length a = 0 then [MeanOfEmptySlice] else []) @
              (if int (length a) - 1 \<le> 0 then [DegreesOfFreedom] else [])) @ fw))"
  unfolding get_corrcoef_def corrcoef_of_cov [OF cov_unfold [OF assms]] Let_def
  by (simp del: np_arith_simps split: sum.split)

subsection \<open>Means, products and variances\<close>

lemma mode_of_notebook: "mode_of notebook_errstate f = Ignore"
  by (cases f) (simp_all add: notebook_errstate_def np_seterr_def default_errstate_def)

lemma handle_flags_ignore: "handle_flags notebook_errstate calls = Inr []"
  by (simp add: handle_flags_def mode_of_notebook)

lemma handle_flags_noflags: "\<forall>c \<in> set calls. c = [] \<Longrightarrow> handle_flags st calls = Inr []"
  by (induction calls) (auto simp: handle_flags_def call_flags_def)

lemma dot_commute: "dot r s = dot s r"
proof -
  have "map2 (*) r s = map2 (*) s r"
    by (induction r s rule: list_induct2') (simp_all add: mult.commute)
  then show ?thesis by (simp add: dot_def)
qed

lemma dot_self_nonneg: "0 \<le> dot r r"
  unfolding dot_def by (induction r) auto

lemma dot_self_zero_iff: "dot r r = 0 \<longleftrightarrow> (\<forall>v \<in> set r. v = 0)"
proof (induction r)
  case Nil
  then show ?case by (simp add: dot_def)
next
  case (Cons x r)
  have "0 \<le> dot r r" by (rule dot_self_nonneg)
  moreover have "dot (x # r) (x # r) = x * x + dot r r" by (simp add: dot_def)
  moreover have "0 \<le> x * x" by simp
  ultimately have "dot (x # r) (x # r) = 0 \<longleftrightarrow> x = 0 \<and> dot r r = 0"
    by (smt (verit) mult_eq_0_iff)
  with Cons show ?case by auto
qed

lemma dot_zero_left: "\<forall>v \<in> set r. v = 0 \<Longrightarrow> dot r s = 0"
  unfolding dot_def by (induction r arbitrary: s) (auto split: list.splits simp: zip_Cons1)

lemma dot_zero_right: "\<forall>v \<in> set s. v = 0 \<Longrightarrow> dot r s = 0"
  using dot_zero_left [of s r] by (simp add: dot_commute)

lemma zero_variance_sum:
  assumes "zero_variance xs" "x \<in> set xs"
  shows "sum_list xs = real (length xs) * x"
proof -
  have "\<forall>v \<in> set xs. v = x \<Longrightarrow> sum_list xs = real (length xs) * x" for xs :: "real list"
    by (induction xs) (auto simp: algebra_simps)
  with assms show ?thesis by (auto simp: zero_variance_def)
qed

lemma demean_zero_iff: "(\<forall>v \<in> set (demean xs). v = 0) \<longleftrightarrow> zero_variance xs"
proof
  assume z: "\<forall>v \<in> set (demean xs). v = 0"
  then have "\<forall>v \<in> set xs. v = sum_list xs / real (length xs)"
    by (auto simp: demean_def)
  then show "zero_variance xs" unfolding zero_variance_def by metis
next
  assume z: "zero_variance xs"
  show "\<forall>v \<in> set (demean xs). v = 0"
  proof
    fix v assume "v \<in> set (demean xs)"
    then obtain x where x: "x \<in> set xs" "v = x - sum_list xs / real (length xs)"
      by (auto simp: demean_def)
    from x(1) have "xs \<noteq> []" by auto
    then have "real (length xs) \<noteq> 0" by simp
    with zero_variance_sum [OF z x(1)] x(2) show "v = 0" by simp
  qed
qed

lemma demean_uminus: "demean (map uminus xs) = map uminus (demean xs)"
proof -
  have "sum_list (map uminus xs) = - sum_list xs" for xs :: "real list"
    by (induction xs) auto
  then show ?thesis by (simp add: demean_def)
qed

lemma dot_uminus_right: "dot r (map uminus s) = - dot r s"
  unfolding dot_def by (induction r arbitrary: s) (auto split: list.splits simp: zip_Cons1)

lemma dot_uminus_left: "dot (map uminus r) s = - dot r s"
  using dot_uminus_right [of s r] by (simp add: dot_commute)

lemma zero_variance_uminus: "zero_variance (map uminus xs) = zero_variance xs"
  by (auto simp: zero_variance_def)

lemma zero_variance_short: "length xs \<le> 1 \<Longrightarrow> zero_variance xs"
  by (cases xs) (auto simp: zero_variance_def)

lemma variance_pos: "\<not> zero_variance xs \<Longrightarrow> 0 < dot (demean xs) (demean xs)"
  using dot_self_nonneg [of "demean xs"] dot_self_zero_iff [of "demean xs"] demean_zero_iff [of xs]
  by (simp add: less_le)

subsection \<open>Series of nonzero variance\<close>

lemma cov_fact_pos: "2 \<le> n \<Longrightarrow> cov_fact n = real n - 1 \<and> 0 < cov_fact n"
  by (simp add: cov_fact_def)

lemma cov_fact_zero: "n \<le> 1 \<Longrightarrow> cov_fact n = 0"
  by (simp add: cov_fact_def)

lemma handle_flags_nil6: "handle_flags st [[], [], [], [], [], []] = Inr []"
  by (simp add: handle_flags_def call_flags_def)

lemma get_corrcoef_regular:
  assumes len: "length a = length b"
    and na: "\<not> zero_variance a" and nb: "\<not> zero_variance b"
  shows "get_corrcoef st a b =
    Inr (Num (min (max (dot (demean a) (demean b) / (real (length a) - 1)
                         / sqrt (dot (demean a) (demean a) / (real (length a) - 1))
                         / sqrt (dot (demean b) (demean b) / (real (length a) - 1))) (-1)) 1), [])"
proof -
  define f where "f = real (length a) - 1"
  define A where "A = dot (demean a) (demean a)"
  define B where "B = dot (demean b) (demean b)"
  define C where "C = dot (demean a) (demean b)"
  have n2: "2 \<le> length a"
    using na zero_variance_short [of a] by (cases "length a \<le> 1") auto
  have cf: "cov_fact (length a) = f" and fpos: "0 < f"
    using cov_fact_pos [OF n2] by (simp_all add: f_def)
  have Apos: "0 < A" and Bpos: "0 < B"
    using variance_pos [OF na] variance_pos [OF nb] by (simp_all add: A_def B_def)
  have fd: "np_div (Num 1) (Num (cov_fact (length a))) = Num (1 / f)"
    using fpos by (simp add: cf)
  have sA: "0 < sqrt (A / f)" and sB: "0 < sqrt (B / f)"
    using Apos Bpos fpos by simp_all
  have n0: "length a \<noteq> 0" "\<not> int (length a) - 1 \<le> 0" "real (length a) \<noteq> 0"
    using n2 by auto
  have f0: "f \<noteq> 0" "\<not> A / f < 0" "\<not> B / f < 0" "A / f \<noteq> 0" "B / f \<noteq> 0"
    using fpos Apos Bpos by (simp_all add: not_less)
  show ?thesis
    unfolding get_corrcoef_unfold [OF len] Let_def fd
    unfolding A_def [symmetric] B_def [symmetric] C_def [symmetric] dot_commute [of "demean b" "demean a"]
      f_def [symmetric]
    using sA sB n0 f0 by (simp add: handle_flags_nil6 cf)
qed

lemma real_div_sqrt_sqrt: "0 < v \<Longrightarrow> v / (sqrt v * sqrt v) = 1"
  by simp

lemma get_corrcoef_same:
  assumes "\<not> zero_variance a"
  shows "get_corrcoef st a a = Inr (Num 1, [])"
proof -
  define V where "V = dot (demean a) (demean a) / (real (length a) - 1)"
  have n2: "2 \<le> length a"
    using assms zero_variance_short [of a] by (cases "length a \<le> 1") auto
  have "0 < V"
    unfolding V_def using variance_pos [OF assms] n2 by simp
  then have "V / sqrt V / sqrt V = 1" by simp
  then show ?thesis
    unfolding get_corrcoef_regular [OF refl assms assms] V_def [symmetric] by simp
qed

lemma get_corrcoef_negated:
  assumes "\<not> zero_variance a"
  shows "get_corrcoef st a (map uminus a) = Inr (Num (- 1), [])"
proof -
  define V where "V = dot (demean a) (demean a) / (real (length a) - 1)"
  have n2: "2 \<le> length a"
    using assms zero_variance_short [of a] by (cases "length a \<le> 1") auto
  have "0 < V"
    unfolding V_def using variance_pos [OF assms] n2 by simp
  then have e: "- V / sqrt V / sqrt V = - 1" by simp
  have nb: "\<not> zero_variance (map uminus a)"
    using assms by (simp add: zero_variance_uminus)
  have len: "length a = length (map uminus a)" by simp
  have "get_corrcoef st a (map uminus a) =
      Inr (Num (min (max (- V / sqrt V / sqrt V) (- 1)) 1), [])"
    unfolding get_corrcoef_regular [OF len assms nb] demean_uminus dot_uminus_right
      dot_uminus_left minus_minus V_def
    by simp
  then show ?thesis unfolding e by simp
qed

lemma np_div_NaN_left: "np_div NaN v = NaN"
  by (cases v) simp_all

lemma get_corrcoef_degenerate:
  assumes len: "length a = length b"
    and z: "zero_variance a \<or> zero_variance b"
  shows "get_corrcoef notebook_errstate a b =
    Inr (NaN, (if length a = 0 then [MeanOfEmptySlice] else []) @
              (if length a \<le> 1 then [DegreesOfFreedom] else []))"
proof -
  define f where "f = real (length a) - 1"
  define A where "A = dot (demean a) (demean a)"
  define B where "B = dot (demean b) (demean b)"
  define C where "C = dot (demean a) (demean b)"
  have C0: "C = 0"
    using z dot_zero_left [of "demean a" "demean b"] dot_zero_right [of "demean b" "demean a"]
    by (auto simp: C_def demean_zero_iff)
  have A0: "0 \<le> A" and B0: "0 \<le> B"
    by (simp_all add: A_def B_def dot_self_nonneg)
  have pyw: "(int (length a) - 1 \<le> 0) = (length a \<le> 1)" by auto
  have val: "np_clip (- 1) 1
      (np_div (np_div (np_mul (Num C) (np_div (Num 1) (Num (cov_fact (length a)))))
                      (np_sqrt (np_mul (Num A) (np_div (Num 1) (Num (cov_fact (length a)))))))
              (np_sqrt (np_mul (Num B) (np_div (Num 1) (Num (cov_fact (length a))))))) = NaN"
  proof (cases "length a \<le> 1")
    case True
    then show ?thesis by (simp add: cov_fact_zero C0 np_div_NaN_left)
  next
    case False
    then have n2: "2 \<le> length a" by simp
    have cf: "cov_fact (length a) = f" and fpos: "0 < f"
      using cov_fact_pos [OF n2] by (simp_all add: f_def)
    have nn: "\<not> A / f < 0" "\<not> B / f < 0"
      using A0 B0 fpos by (simp_all add: not_less)
    show ?thesis
    proof (cases "zero_variance a")
      case True
      then have "A = 0"
        by (simp add: A_def dot_self_zero_iff demean_zero_iff)
      then show ?thesis using fpos by (simp add: cf C0 np_div_NaN_left)
    next
      case False
      with z have "zero_variance b" by simp
      then have "B = 0"
        by (simp add: B_def dot_self_zero_iff demean_zero_iff)
      moreover have "0 < A" using variance_pos [OF False] by (simp add: A_def)
      ultimately show ?thesis using fpos by (simp add: cf C0)
    qed
  qed
  show ?thesis
    unfolding get_corrcoef_unfold [OF len] Let_def handle_flags_ignore
    unfolding A_def [symmetric] B_def [symmetric] C_def [symmetric] pyw
    by (simp del: np_arith_simps add: val)
qed

subsection \<open>Symmetry\<close>

lemma call_flags_cong: "set fs = set gs \<Longrightarrow> call_flags fs = call_flags gs"
  by (simp add: call_flags_def)

lemma handle_flags_cong:
  assumes "map set calls = map set calls'"
  shows "handle_flags st calls = handle_flags st calls'"
proof -
  define g where "g = (\<lambda>S. filter (\<lambda>f. f \<in> S) [DivideByZero, Invalid])"
  have "map call_flags cs = map g (map set cs)" for cs
    unfolding g_def by (simp add: call_flags_def)
  then have "map call_flags calls = map call_flags calls'"
    using assms by metis
  then show ?thesis by (simp add: handle_flags_def)
qed

lemma np_div_div_commute_Num:
  assumes "0 \<le> x" "0 \<le> y"
  shows "np_div (np_div (Num v) (Num x)) (Num y) = np_div (np_div (Num v) (Num y)) (Num x)"
proof -
  consider "x = 0" "y = 0" | "x = 0" "0 < y" | "0 < x" "y = 0" | "0 < x" "0 < y"
    using assms by fastforce
  then show ?thesis
  proof cases
    case 1
    then show ?thesis by simp
  next
    case 2
    then show ?thesis by (simp add: zero_less_divide_iff)
  next
    case 3
    then show ?thesis by (simp add: zero_less_divide_iff)
  next
    case 4
    then show ?thesis by (simp add: mult.commute)
  qed
qed

lemma np_sqrt_range: "np_sqrt v \<noteq> NInf \<and> (\<forall>x. np_sqrt v = Num x \<longrightarrow> 0 \<le> x)"
  by (cases v) simp_all

lemma np_div_div_commute:
  assumes s: "s \<noteq> NInf" "\<forall>x. s = Num x \<longrightarrow> 0 \<le> x"
    and t: "t \<noteq> NInf" "\<forall>y. t = Num y \<longrightarrow> 0 \<le> y"
  shows "np_div (np_div c s) t = np_div (np_div c t) s"
proof (cases s)
  case (Num x)
  note sx = this
  show ?thesis
  proof (cases t)
    case (Num y)
    note ty = this
    show ?thesis
    proof (cases c)
      case (Num v)
      show ?thesis
        unfolding sx ty Num using s t sx ty by (intro np_div_div_commute_Num) simp_all
    qed (use sx ty s t in simp_all)
  next
    case PInf
    with sx s show ?thesis by (cases c) simp_all
  next
    case NInf
    with t show ?thesis by simp
  next
    case NaN
    with sx show ?thesis by (cases c) simp_all
  qed
next
  case PInf
  note sx = this
  show ?thesis
  proof (cases t)
    case (Num y)
    with sx t show ?thesis by (cases c) simp_all
  next
    case PInf
    with sx show ?thesis by simp
  next
    case NInf
    with t show ?thesis by simp
  next
    case NaN
    with sx show ?thesis by (cases c) simp_all
  qed
next
  case NInf
  with s show ?thesis by simp
next
  case NaN
  then show ?thesis by (cases c; cases t) simp_all
qed

lemma np_div_sqrt_commute:
  "np_div (np_div c (np_sqrt u)) (np_sqrt w) = np_div (np_div c (np_sqrt w)) (np_sqrt u)"
  using np_sqrt_range [of u] np_sqrt_range [of w] by (intro np_div_div_commute) blast+

lemma corr_case_cong:
  "handle_flags st X = handle_flags st X' \<Longrightarrow> v = v' \<Longrightarrow> p = p' \<Longrightarrow>
   (case handle_flags st X of Inl e \<Rightarrow> Inl e | Inr fw \<Rightarrow> Inr (v, p @ fw)) =
   (case handle_flags st X' of Inl e \<Rightarrow> Inl e | Inr fw \<Rightarrow> Inr (v', p' @ fw))"
  by (cases "handle_flags st X'") simp_all

lemma get_corrcoef_commute: "get_corrcoef st a b = get_corrcoef st b a"
proof (cases "length a = length b")
  case False
  then show ?thesis by (simp add: get_corrcoef_def corrcoef_def cov_def)
next
  case True
  show ?thesis
    unfolding get_corrcoef_unfold [OF True] get_corrcoef_unfold [OF True [symmetric]] Let_def
      True [symmetric] dot_commute [of "demean b" "demean a"]
    apply (rule corr_case_cong)
      apply (rule handle_flags_cong)
      apply (simp del: np_arith_simps add: Un_ac)
     apply (simp only: np_div_sqrt_commute)
    apply (rule refl)
    done
qed

section \<open>Claims about the per-cell correlation\<close>

lemmas corr_eval_simps = get_corrcoef_unfold demean_def dot_def cov_fact_def handle_flags_def
  call_flags_def notebook_errstate_def np_seterr_def default_errstate_def

text \<open>
  The error state matters: with both categories set to \<open>Raise\<close> a constant series
  aborts the computation, and with the library's default it warns.
\<close>

lemma get_corrcoef_raise_mode:
  "get_corrcoef (np_seterr Raise Raise default_errstate) [1, 1] [1, 2] = Inl FloatingPointError"
  by (simp add: corr_eval_simps)

lemma get_corrcoef_warn_mode:
  "get_corrcoef default_errstate [1, 1] [1, 2] =
     Inr (NaN, [FPWarning Invalid, FPWarning Invalid])"
  by (simp add: corr_eval_simps)

lemma get_corrcoef_length_mismatch:
  "length a \<noteq> length b \<Longrightarrow> get_corrcoef st a b = Inl ValueError"
  by (simp add: get_corrcoef_def corrcoef_def cov_def)

text \<open>
  Claim C1, as stated: the correlation of a series with itself is 1.0, for every series.
  It fails on a constant series, whose variance is zero: the result is NaN.
\<close>

theorem get_corrcoef_identical_constant_counterexample:
  "get_corrcoef notebook_errstate [1, 1] [1, 1] = Inr (NaN, []) \<and>
   get_corrcoef notebook_errstate [1, 1] [1, 1] \<noteq> Inr (Num 1, [])"
  by (simp add: corr_eval_simps)

text \<open>
  Claim C1, amended: in exact arithmetic the correlation of a series with itself is 1,
  with no warning, whenever the series does not have zero variance (it has at least two
  values and they are not all equal).
\<close>

theorem get_corrcoef_identical:
  "\<not> zero_variance a \<Longrightarrow> get_corrcoef st a a = Inr (Num 1, [])"
  by (rule get_corrcoef_same)

theorem get_corrcoef_identical_witness:
  "\<not> zero_variance [1, 2, 3] \<and>
   get_corrcoef notebook_errstate [1, 2, 3] [1, 2, 3] = Inr (Num 1, [])"
  using get_corrcoef_identical [of "[1, 2, 3]" notebook_errstate]
  by (simp add: zero_variance_def)

text \<open>
  Claim C2, as stated: the correlation of a series with its negation is -1.0, for every
  series. It fails on a constant series: the result is NaN.
\<close>

theorem get_corrcoef_negation_constant_counterexample:
  "get_corrcoef notebook_errstate [1, 1] (map uminus [1, 1]) = Inr (NaN, []) \<and>
   get_corrcoef notebook_errstate [1, 1] (map uminus [1, 1]) \<noteq> Inr (Num (- 1), [])"
  by (simp add: corr_eval_simps)

text \<open>
  Claim C2, amended: in exact arithmetic the correlation of a series with its negation,
  in either order, is -1, with no warning, whenever the series does not have zero
  variance.
\<close>

theorem get_corrcoef_negation:
  assumes "\<not> zero_variance a"
  shows "get_corrcoef st a (map uminus a) = Inr (Num (- 1), []) \<and>
         get_corrcoef st (map uminus a) a = Inr (Num (- 1), [])"
  using get_corrcoef_negated [OF assms, of st] get_corrcoef_commute [of st "map uminus a" a]
  by simp

theorem get_corrcoef_negation_witness:
  "\<not> zero_variance [1, 2, 3] \<and>
   get_corrcoef notebook_errstate [1, 2, 3] (map uminus [1, 2, 3]) = Inr (Num (- 1), []) \<and>
   get_corrcoef notebook_errstate (map uminus [1, 2, 3]) [1, 2, 3] = Inr (Num (- 1), [])"
  using get_corrcoef_negation [of "[1, 2, 3]" notebook_errstate]
  by (simp add: zero_variance_def)

text \<open>
  Claim C3: under the error state the notebook sets, the correlation of two series of
  equal length of which at least one has zero variance does not raise: it returns NaN, and
  no floating-point warning is emitted. (The only warnings left are the two that do not
  come from the floating-point error state, for series of fewer than two values.)
\<close>

theorem get_corrcoef_zero_variance:
  assumes "length a = length b" and "zero_variance a \<or> zero_variance b"
  shows "get_corrcoef notebook_errstate a b =
    Inr (NaN, (if length a = 0 then [MeanOfEmptySlice] else []) @
              (if length a \<le> 1 then [DegreesOfFreedom] else []))"
  using assms by (rule get_corrcoef_degenerate)

theorem get_corrcoef_zero_variance_witness:
  "length [5, 5, 5 :: real] = length [1, 2, 3 :: real] \<and>
   (zero_variance [5, 5, 5] \<or> zero_variance [1, 2, 3]) \<and>
   get_corrcoef notebook_errstate [5, 5, 5] [1, 2, 3] = Inr (NaN, [])"
  using get_corrcoef_zero_variance [of "[5, 5, 5]" "[1, 2, 3]"]
  by (simp add: zero_variance_def)

text \<open>
  Claim C9: the correlation is symmetric in its two arguments, errors and warnings
  included.
\<close>

theorem get_corrcoef_symmetric: "get_corrcoef st a b = get_corrcoef st b a"
  by (rule get_corrcoef_commute)

section \<open>Properties of the time axes\<close>

lemma day_number_inverse: "day_number (date_of_day_number n) = n"
proof -
  have a: "n mod 360 mod 30 = n mod 30"
    by (rule mod_mod_cancel) simp
  have b: "n mod 360 div 30 * 30 + n mod 360 mod 30 = n mod 360"
    by (rule div_mult_mod_eq)
  have c: "n div 360 * 360 + n mod 360 = n"
    by (rule div_mult_mod_eq)
  have "n div 360 * 360 + n mod 360 div 30 * 30 + n mod 30 = n"
    using a b c by linarith
  then show ?thesis
    by (simp add: day_number_def date_of_day_number_def)
qed

lemma day_number_num2date: "day_number (num2date_months ref k) = day_number ref + 30 * k"
  by (simp add: num2date_months_def day_number_inverse)

lemma date_of_day_number_mid_month:
  assumes "0 \<le> i" "i < 12"
  shows "date_of_day_number (y * 360 + (i * 30 + 14)) = \<lparr>cf_year = y, cf_month = i + 1, cf_day = 15\<rparr>"
proof -
  define r where "r = i * 30 + 14"
  have r: "0 \<le> r" "r < 360" using assms by (simp_all add: r_def)
  have d: "(y * 360 + r) div 360 = y"
    using r by (simp add: div_pos_pos_trivial)
  have m: "(y * 360 + r) mod 360 = r"
    using r by (simp add: mod_pos_pos_trivial)
  have di: "r div 30 = i"
    unfolding r_def by simp
  have "y * 360 + r = (y * 12 + i) * 30 + 14" by (simp add: r_def)
  then have m30: "(y * 360 + r) mod 30 = 14"
    by (simp only: mod_mult_self3) simp
  show ?thesis
    unfolding date_of_day_number_def r_def [symmetric] d m m30 di by simp
qed

lemma filter_window:
  assumes "a + w \<le> length xs"
    and "\<And>k. k < length xs \<Longrightarrow> P (xs ! k) \<longleftrightarrow> a \<le> k \<and> k < a + w"
  shows "filter P xs = take w (drop a xs)"
proof -
  have split: "xs = take a xs @ take w (drop a xs) @ drop (a + w) xs"
    by (metis append_take_drop_id drop_drop add.commute)
  have f1: "filter P (take a xs) = []"
    using assms by (auto simp: filter_empty_conv in_set_conv_nth)
  have f3: "filter P (drop (a + w) xs) = []"
    using assms by (auto simp: filter_empty_conv in_set_conv_nth)
  have f2: "filter P (take w (drop a xs)) = take w (drop a xs)"
    using assms by (auto simp: filter_id_conv in_set_conv_nth)
  have "filter P xs = filter P (take a xs) @ filter P (take w (drop a xs)) @ filter P (drop (a + w) xs)"
    by (metis split filter_append)
  then show ?thesis by (simp add: f1 f2 f3)
qed

lemma in_year_iff:
  fixes k q :: nat
  shows "(day_number \<lparr>cf_year = Y0 + int q, cf_month = 1, cf_day = 1\<rparr>
            \<le> day_number (num2date_months \<lparr>cf_year = Y0, cf_month = 1, cf_day = 15\<rparr> (int k)) \<and>
          day_number (num2date_months \<lparr>cf_year = Y0, cf_month = 1, cf_day = 15\<rparr> (int k))
            \<le> day_number \<lparr>cf_year = Y0 + int q, cf_month = 12, cf_day = 30\<rparr>)
         \<longleftrightarrow> 12 * q \<le> k \<and> k < 12 * q + 12"
  unfolding day_number_num2date by (simp add: day_number_def) linarith

lemma months_of_year:
  fixes q :: nat
  shows "map (\<lambda>k. num2date_months \<lparr>cf_year = Y0, cf_month = 1, cf_day = 15\<rparr> (int k)) [12 * q..<12 * q + 12]
       = map (\<lambda>m. \<lparr>cf_year = Y0 + int q, cf_month = int m, cf_day = 15\<rparr>) [1..<13]"
proof -
  have f0: "num2date_months \<lparr>cf_year = Y0, cf_month = 1, cf_day = 15\<rparr> (int (12 * q + i))
      = \<lparr>cf_year = Y0 + int q, cf_month = int (Suc i), cf_day = 15\<rparr>" if "i < 12" for i
  proof -
    have eq: "day_number \<lparr>cf_year = Y0, cf_month = 1, cf_day = 15\<rparr> + 30 * int (12 * q + i)
        = (Y0 + int q) * 360 + (int i * 30 + 14)"
      by (simp add: day_number_def algebra_simps)
    have mid: "date_of_day_number ((Y0 + int q) * 360 + (int i * 30 + 14))
        = \<lparr>cf_year = Y0 + int q, cf_month = int i + 1, cf_day = 15\<rparr>"
      using that by (intro date_of_day_number_mid_month) simp_all
    show ?thesis
      unfolding num2date_months_def eq mid by (simp add: add.commute)
  qed
  have f: "num2date_months \<lparr>cf_year = Y0, cf_month = 1, cf_day = 15\<rparr> (12 * int q + int i)
      = \<lparr>cf_year = Y0 + int q, cf_month = 1 + int i, cf_day = 15\<rparr>" if "i < 12" for i
    using f0 [OF that] by (simp add: add.commute)
  have "[12 * q..<12 * q + 12] = map (\<lambda>i. 12 * q + i) [0..<12]"
    by (simp add: map_add_upt add.commute)
  moreover have "[1..<13] = map Suc [0..<12]"
    by (simp add: map_Suc_upt)
  ultimately show ?thesis
    by (simp only: map_map o_def) (rule map_cong, simp, simp add: f)
qed

lemma sel_year_assigned:
  fixes ds :: "'v dataset" and q :: nat
  assumes t: "time ds = map (num2date_months \<lparr>cf_year = Y0, cf_month = 1, cf_day = 15\<rparr>) (np_arange 0 N)"
    and n: "length (pr ds) = N"
    and b: "12 * q + 12 \<le> N"
  shows "time (sel_year (Y0 + int q) ds)
           = map (\<lambda>m. \<lparr>cf_year = Y0 + int q, cf_month = int m, cf_day = 15\<rparr>) [1..<13]"
    and "pr (sel_year (Y0 + int q) ds) = take 12 (drop (12 * q) (pr ds))"
proof -
  let ?f = "\<lambda>k. num2date_months \<lparr>cf_year = Y0, cf_month = 1, cf_day = 15\<rparr> (int k)"
  let ?P = "\<lambda>(t, slab :: 'v list list).
       day_number \<lparr>cf_year = Y0 + int q, cf_month = 1, cf_day = 1\<rparr> \<le> day_number t \<and>
       day_number t \<le> day_number \<lparr>cf_year = Y0 + int q, cf_month = 12, cf_day = 30\<rparr>"
  have T: "time ds = map ?f [0..<N]"
    by (simp add: t np_arange_def o_def)
  have len: "length (zip (time ds) (pr ds)) = N"
    by (simp add: T n)
  have keep: "filter ?P (zip (time ds) (pr ds)) = take 12 (drop (12 * q) (zip (time ds) (pr ds)))"
  proof (rule filter_window)
    show "12 * q + 12 \<le> length (zip (time ds) (pr ds))" using b len by simp
  next
    fix k assume "k < length (zip (time ds) (pr ds))"
    then have k: "k < N" unfolding len .
    then have "zip (time ds) (pr ds) ! k = (?f k, pr ds ! k)"
      by (simp add: T n)
    then show "?P (zip (time ds) (pr ds) ! k) \<longleftrightarrow> 12 * q \<le> k \<and> k < 12 * q + 12"
      using in_year_iff [of Y0 q k] by simp
  qed
  have z: "take 12 (drop (12 * q) (zip (time ds) (pr ds)))
      = zip (take 12 (drop (12 * q) (time ds))) (take 12 (drop (12 * q) (pr ds)))"
    by (simp add: take_zip drop_zip)
  have l1: "length (take 12 (drop (12 * q) (time ds))) = 12"
    using b by (simp add: T)
  have l2: "length (take 12 (drop (12 * q) (pr ds))) = 12"
    using b by (simp add: n)
  have tt: "take 12 (drop (12 * q) (time ds)) = map ?f [12 * q..<12 * q + 12]"
    using b by (simp add: T take_map drop_map take_upt add.commute)
  show "time (sel_year (Y0 + int q) ds)
           = map (\<lambda>m. \<lparr>cf_year = Y0 + int q, cf_month = int m, cf_day = 15\<rparr>) [1..<13]"
    unfolding sel_year_def Let_def keep z using l1 l2
    by (simp add: tt months_of_year del: upt_Suc)
  show "pr (sel_year (Y0 + int q) ds) = take 12 (drop (12 * q) (pr ds))"
    unfolding sel_year_def Let_def keep z using l1 l2 by simp
qed

lemma assign_coords_time_Inr:
  assumes "assign_coords_time new raw = Inr ds"
  shows "time ds = new" and "pr ds = pr raw" and "length (pr ds) = length new"
    and "lat ds = lat raw" and "lon ds = lon raw"
  using assms by (auto simp: assign_coords_time_def split: if_splits)

lemma interp_time:
  assumes "interp new_lat new_lon ds = Inr r"
  shows "time r = time ds" and "length (pr r) = length (pr ds)"
    and "lat r = new_lat" and "lon r = new_lon"
  using assms
  by (auto simp: interp_def Let_def sortby_lon_def sortby_lat_def split: if_splits)

lemma time_360_ref_new_eq:
  "time_360_ref_new =
     map (num2date_months \<lparr>cf_year = 1979, cf_month = 1, cf_day = 15\<rparr>) (np_arange 0 502)"
  by (simp add: time_360_ref_new_def time_360_ref_era5_def np_arange_def take_map)

lemma time_360_ref_cmip6_eq:
  "time_360_ref_cmip6 =
     map (num2date_months \<lparr>cf_year = 1850, cf_month = 1, cf_day = 15\<rparr>) (np_arange 0 1980)"
  by (simp add: time_360_ref_cmip6_def)

lemma length_time_360_ref_new: "length time_360_ref_new = 502"
  by (simp add: time_360_ref_new_eq np_arange_def)

lemma length_time_360_ref_cmip6: "length time_360_ref_cmip6 = 1980"
  by (simp add: time_360_ref_cmip6_eq np_arange_def)

lemma yearly_slices:
  fixes raw_cmip6 raw_era5 :: "real dataset"
  assumes cm: "assign_coords_time time_360_ref_cmip6 raw_cmip6 = Inr ds_cmip6"
    and er: "assign_coords_time time_360_ref_new raw_era5 = Inr ds_tp_mon"
    and rm: "interp new_lat new_lon (assign_coords_lon_plus_180 ds_tp_mon) = Inr ds_tp_mon_remap"
    and y: "1979 \<le> y" "y \<le> 2014"
  shows "time (sel_year y ds_cmip6) =
           map (\<lambda>m. \<lparr>cf_year = y, cf_month = int m, cf_day = 15\<rparr>) [1..<13]"
    and "time (sel_year y ds_tp_mon_remap) =
           map (\<lambda>m. \<lparr>cf_year = y, cf_month = int m, cf_day = 15\<rparr>) [1..<13]"
    and "length (pr (sel_year y ds_cmip6)) = 12"
    and "length (pr (sel_year y ds_tp_mon_remap)) = 12"
proof -
  define q1 where "q1 = nat (y - 1850)"
  define q2 where "q2 = nat (y - 1979)"
  have y1: "y = 1850 + int q1" and y2: "y = 1979 + int q2"
    using y by (simp_all add: q1_def q2_def)
  have b1: "12 * q1 + 12 \<le> 1980" and b2: "12 * q2 + 12 \<le> 502"
    using y by (simp_all add: q1_def q2_def)
  have t1: "time ds_cmip6 =
      map (num2date_months \<lparr>cf_year = 1850, cf_month = 1, cf_day = 15\<rparr>) (np_arange 0 1980)"
    using assign_coords_time_Inr(1) [OF cm] by (simp add: time_360_ref_cmip6_eq)
  have n1: "length (pr ds_cmip6) = 1980"
    using assign_coords_time_Inr(3) [OF cm] by (simp add: length_time_360_ref_cmip6)
  have t2: "time ds_tp_mon_remap =
      map (num2date_months \<lparr>cf_year = 1979, cf_month = 1, cf_day = 15\<rparr>) (np_arange 0 502)"
    using interp_time(1) [OF rm] assign_coords_time_Inr(1) [OF er]
    by (simp add: time_360_ref_new_eq assign_coords_lon_plus_180_def)
  have n2: "length (pr ds_tp_mon_remap) = 502"
    using interp_time(2) [OF rm] assign_coords_time_Inr(3) [OF er]
    by (simp add: length_time_360_ref_new assign_coords_lon_plus_180_def)
  show "time (sel_year y ds_cmip6) =
           map (\<lambda>m. \<lparr>cf_year = y, cf_month = int m, cf_day = 15\<rparr>) [1..<13]"
    unfolding y1 by (rule sel_year_assigned(1) [OF t1 n1 b1])
  show "time (sel_year y ds_tp_mon_remap) =
           map (\<lambda>m. \<lparr>cf_year = y, cf_month = int m, cf_day = 15\<rparr>) [1..<13]"
    unfolding y2 by (rule sel_year_assigned(1) [OF t2 n2 b2])
  show "length (pr (sel_year y ds_cmip6)) = 12"
    unfolding y1 sel_year_assigned(2) [OF t1 n1 b1] using b1 n1 by simp
  show "length (pr (sel_year y ds_tp_mon_remap)) = 12"
    unfolding y2 sel_year_assigned(2) [OF t2 n2 b2] using b2 n2 by simp
qed

section \<open>Properties of the longitude shift\<close>

lemma lon_plus_180_Min_Max:
  assumes "xs \<noteq> []"
  shows "Min (set (map (\<lambda>x. x + 180) xs)) = Min (set xs) + (180 :: real)"
    and "Max (set (map (\<lambda>x. x + 180) xs)) = Max (set xs) + (180 :: real)"
proof -
  have m: "mono (\<lambda>x :: real. x + 180)" by (simp add: mono_def)
  show "Min (set (map (\<lambda>x. x + 180) xs)) = Min (set xs) + (180 :: real)"
    using mono_Min_commute [OF m, of "set xs"] assms by simp
  show "Max (set (map (\<lambda>x. x + 180) xs)) = Max (set xs) + (180 :: real)"
    using mono_Max_commute [OF m, of "set xs"] assms by simp
qed

section \<open>Properties of the interpolation\<close>

lemma argsort_pairs:
  "\<forall>p \<in> set (sort_key fst (zip xs [0..<length xs])). fst p = xs ! snd p \<and> snd p < length xs"
  by (auto simp: in_set_zip)

lemma mset_argsort: "mset (argsort xs) = mset [0..<length xs]"
proof -
  have a: "map snd (zip xs [0..<length xs]) = [0..<length xs]"
    by (rule map_snd_zip) simp
  have "mset (argsort xs) = mset (map snd (zip xs [0..<length xs]))"
    unfolding argsort_def by (simp only: mset_map mset_sort)
  then show ?thesis unfolding a .
qed

lemma length_argsort: "length (argsort xs) = length xs"
  using mset_eq_length [OF mset_argsort, of xs] by simp

lemma set_argsort: "set (argsort xs) = {0..<length xs}"
  using mset_eq_setD [OF mset_argsort, of xs] by simp

lemma distinct_argsort: "distinct (argsort xs)"
  using mset_eq_imp_distinct_iff [OF mset_argsort, of xs] by simp

lemma argsort_keys: "map (\<lambda>k. xs ! k) (argsort xs) = map fst (sort_key fst (zip xs [0..<length xs]))"
  unfolding argsort_def map_map o_def
  by (rule map_cong) (use argsort_pairs [of xs] in auto)

lemma sorted_argsort: "sorted (map (\<lambda>k. xs ! k) (argsort xs))"
  unfolding argsort_keys by (rule sorted_sort_key)

lemma strict_sorted_argsort:
  assumes "distinct xs"
  shows "sorted_wrt (<) (map (\<lambda>k. xs ! k) (argsort xs))"
proof -
  have "inj_on (\<lambda>k. xs ! k) (set (argsort xs))"
    unfolding set_argsort using assms by (auto simp: inj_on_def nth_eq_iff_index_eq)
  then have "distinct (map (\<lambda>k. xs ! k) (argsort xs))"
    by (simp add: distinct_map distinct_argsort)
  with sorted_argsort [of xs] show ?thesis
    by (simp add: strict_sorted_iff)
qed

lemma argsort_position:
  assumes "k < length xs"
  obtains p where "p < length xs" "argsort xs ! p = k"
proof -
  from assms have "k \<in> set (argsort xs)" by (simp add: set_argsort)
  then obtain p where "p < length (argsort xs)" "argsort xs ! p = k"
    by (auto simp: in_set_conv_nth)
  then show ?thesis using that by (simp add: length_argsort)
qed

lemma searchsorted_nth:
  assumes "sorted_wrt (<) g" "p < length g"
  shows "searchsorted g (g ! p) = p"
proof -
  have "takeWhile (\<lambda>v. v < g ! p) g = take p g"
  proof (rule takeWhile_eq_take_P_nth)
    fix i assume "i < p" "i < length g"
    then show "g ! i < g ! p" using assms by (simp add: sorted_wrt_nth_less)
  qed simp
  then show ?thesis using assms by (simp add: searchsorted_def)
qed

lemma find_indices_nth:
  assumes s: "sorted_wrt (<) g" and n: "2 \<le> length g" and p: "p < length g"
  shows "find_indices g (g ! p) = (if p = 0 then (0, 0, False) else (p - 1, 1, False))"
proof -
  have lo: "\<not> g ! p < g ! 0"
    using sorted_wrt_nth_less [OF s, of 0 p] p by (cases "p = 0") auto
  have hi: "\<not> g ! (length g - 1) < g ! p"
  proof (cases "p = length g - 1")
    case True
    then show ?thesis by simp
  next
    case False
    with p have "p < length g - 1" by simp
    moreover have "length g - 1 < length g" using n by simp
    ultimately have "g ! p < g ! (length g - 1)"
      by (rule sorted_wrt_nth_less [OF s])
    then show ?thesis by simp
  qed
  have ss: "searchsorted g (g ! p) = p"
    by (rule searchsorted_nth [OF s p])
  show ?thesis
  proof (cases "p = 0")
    case True
    with ss have "searchsorted g (g ! 0) = 0" by simp
    then show ?thesis
      using True n lo hi by (simp add: find_indices_def Let_def)
  next
    case False
    then have "g ! (p - 1) < g ! p"
      using sorted_wrt_nth_less [OF s, of "p - 1" p] p by simp
    moreover have "nat (int p - 1) = p - 1" "Suc (p - 1) = p" using False by auto
    ultimately show ?thesis
      using False n p lo hi
      by (simp add: find_indices_def ss Let_def)
  qed
qed

lemma interpn_linear_grid_point:
  assumes "sorted_wrt (<) g" "2 \<le> length g" "p < length g"
    and "sorted_wrt (<) h" "2 \<le> length h" "q < length h"
  shows "interpn_linear g h vals (g ! p) (h ! q) = Num (vals ! p ! q)"
  unfolding interpn_linear_def find_indices_nth [OF assms(1-3)] find_indices_nth [OF assms(4-6)]
  by (simp add: evaluate_linear_def)

lemma interp_colocated:
  fixes ds :: "real dataset"
  assumes ws: "wellshaped ds"
    and dlat: "distinct (lat ds)" and dlon: "distinct (lon ds)"
    and nlat: "2 \<le> length (lat ds)" and nlon: "2 \<le> length (lon ds)"
  shows "interp (lat ds) (lon ds) ds =
     Inr \<lparr>time = time ds, lat = lat ds, lon = lon ds, pr = map (map (map Num)) (pr ds)\<rparr>"
proof -
  define g where "g = lat ds"
  define h where "h = lon ds"
  define o1 where "o1 = argsort g"
  define o2 where "o2 = argsort h"
  define g' where "g' = map (\<lambda>k. g ! k) o1"
  define h' where "h' = map (\<lambda>k. h ! k) o2"
  define F where "F = (\<lambda>slab :: real list list. map (\<lambda>row. map (\<lambda>k. row ! k) o2) (map (\<lambda>k. slab ! k) o1))"
  define s where "s = sortby_lon (sortby_lat ds)"
  have s_lat: "lat s = g'" and s_lon: "lon s = h'" and s_time: "time s = time ds"
    and s_pr: "pr s = map F (pr ds)"
    by (simp_all add: s_def sortby_lon_def sortby_lat_def Let_def g'_def h'_def F_def o1_def
        o2_def g_def h_def o_def)
  have lg: "length g' = length g" and lh: "length h' = length h"
    by (simp_all add: g'_def h'_def o1_def o2_def length_argsort)
  have sg: "sorted_wrt (<) g'" and sh: "sorted_wrt (<) h'"
    using strict_sorted_argsort dlat dlon by (simp_all add: g'_def h'_def o1_def o2_def g_def h_def)
  have n2: "2 \<le> length g'" "2 \<le> length h'"
    using nlat nlon by (simp_all add: lg lh g_def h_def)
  have point: "interpn_linear g' h' (F slab) (g ! k) (h ! l) = Num (slab ! k ! l)"
    if k: "k < length g" and l: "l < length h" for slab k l
  proof -
    obtain p where p: "p < length g" "o1 ! p = k"
      using argsort_position [OF k] unfolding o1_def by blast
    obtain q where q: "q < length h" "o2 ! q = l"
      using argsort_position [OF l] unfolding o2_def by blast
    have po: "p < length o1" and qo: "q < length o2"
      using p q by (simp_all add: o1_def o2_def length_argsort)
    have gp: "g' ! p = g ! k" and hq: "h' ! q = h ! l"
      using p q po qo by (simp_all add: g'_def h'_def)
    have "interpn_linear g' h' (F slab) (g' ! p) (h' ! q) = Num (F slab ! p ! q)"
      using sg n2(1) _ sh n2(2) by (rule interpn_linear_grid_point) (use p q lg lh in simp_all)
    moreover have "F slab ! p ! q = slab ! k ! l"
      using po qo p q by (simp add: F_def)
    ultimately show ?thesis by (simp add: gp hq)
  qed
  have slab_eq: "map (\<lambda>la. map (\<lambda>lo. interpn_linear g' h' (F slab) la lo) h) g = map (map Num) slab"
    if "slab \<in> set (pr ds)" for slab
  proof (rule nth_equalityI)
    show "length (map (\<lambda>la. map (\<lambda>lo. interpn_linear g' h' (F slab) la lo) h) g)
        = length (map (map Num) slab)"
      using ws that by (simp add: wellshaped_def g_def)
  next
    fix k assume "k < length (map (\<lambda>la. map (\<lambda>lo. interpn_linear g' h' (F slab) la lo) h) g)"
    then have k: "k < length g" by simp
    then have ks: "k < length slab" using ws that by (simp add: wellshaped_def g_def)
    then have row: "length (slab ! k) = length h"
      using ws that by (auto simp: wellshaped_def h_def)
    have "map (\<lambda>lo. interpn_linear g' h' (F slab) (g ! k) lo) h = map Num (slab ! k)"
    proof (rule nth_equalityI)
      show "length (map (\<lambda>lo. interpn_linear g' h' (F slab) (g ! k) lo) h) = length (map Num (slab ! k))"
        using row by simp
    next
      fix l assume "l < length (map (\<lambda>lo. interpn_linear g' h' (F slab) (g ! k) lo) h)"
      then have l: "l < length h" by simp
      then show "map (\<lambda>lo. interpn_linear g' h' (F slab) (g ! k) lo) h ! l = map Num (slab ! k) ! l"
        using point [OF k l] row by simp
    qed
    then show "map (\<lambda>la. map (\<lambda>lo. interpn_linear g' h' (F slab) la lo) h) g ! k
        = map (map Num) slab ! k"
      using k ks by simp
  qed
  have "map (\<lambda>slab. map (\<lambda>la. map (\<lambda>lo. interpn_linear g' h' slab la lo) h) g) (map F (pr ds))
      = map (map (map Num)) (pr ds)"
    unfolding map_map o_def by (rule map_cong) (simp_all add: slab_eq)
  then show ?thesis
    unfolding interp_def s_def [symmetric] Let_def s_lat s_lon s_time s_pr g_def [symmetric]
      h_def [symmetric]
    using sg sh n2 by simp
qed

lemma interpn_linear_midpoint:
  "interpn_linear [0, 1] [0, 1] [[0, 1], [2, 3]] (1 / 2) (1 / 2) = Num (3 / 2)"
  by (simp add: interpn_linear_def find_indices_def searchsorted_def evaluate_linear_def)

lemma interpn_linear_outside:
  "interpn_linear [0, 1] [0, 1] [[0, 1], [2, 3]] 2 (1 / 2) = NaN"
  by (simp add: interpn_linear_def find_indices_def searchsorted_def evaluate_linear_def)

section \<open>Claims about the datasets\<close>

text \<open>
  Claim C4: once the two time axes are assigned and the ERA5 dataset is shifted in
  longitude and remapped, for every year from 1979 to 2014 the slice of that year of the
  CMIP6 dataset and the slice of the remapped ERA5 dataset carry the same twelve dates,
  the fifteenth of each month of that year, and the series of every grid cell of either
  slice has twelve values.
\<close>

theorem yearly_slices_aligned:
  fixes raw_cmip6 raw_era5 :: "real dataset"
  assumes "assign_coords_time time_360_ref_cmip6 raw_cmip6 = Inr ds_cmip6"
    and "assign_coords_time time_360_ref_new raw_era5 = Inr ds_tp_mon"
    and "interp new_lat new_lon (assign_coords_lon_plus_180 ds_tp_mon) = Inr ds_tp_mon_remap"
    and "y \<in> {1979..2014}"
  shows "time (sel_year y ds_cmip6) =
           map (\<lambda>m. \<lparr>cf_year = y, cf_month = int m, cf_day = 15\<rparr>) [1..<13] \<and>
         time (sel_year y ds_tp_mon_remap) = time (sel_year y ds_cmip6) \<and>
         length (cell_series (sel_year y ds_cmip6) i j) = 12 \<and>
         length (cell_series (sel_year y ds_tp_mon_remap) i j) = 12"
proof -
  from assms(4) have y: "1979 \<le> y" "y \<le> 2014" by simp_all
  note s = yearly_slices [OF assms(1-3) y]
  show ?thesis
    unfolding cell_series_def length_map s by simp
qed

theorem yearly_slices_aligned_witness:
  "time (sel_year 2000
      \<lparr>time = time_360_ref_cmip6, lat = [0, 1], lon = [0, 1],
        pr = replicate 1980 [[0, 0], [0, 0 :: real]]\<rparr>) =
     map (\<lambda>m. \<lparr>cf_year = 2000, cf_month = int m, cf_day = 15\<rparr>) [1..<13] \<and>
   time (sel_year 2000
      \<lparr>time = time_360_ref_new, lat = [0, 1], lon = [180, 181],
        pr = replicate 502 [[Num 0, Num 0], [Num 0, Num 0]]\<rparr>) =
     map (\<lambda>m. \<lparr>cf_year = 2000, cf_month = int m, cf_day = 15\<rparr>) [1..<13] \<and>
   length (cell_series (sel_year 2000
      \<lparr>time = time_360_ref_new, lat = [0, 1], lon = [180, 181],
        pr = replicate 502 [[Num 0, Num 0], [Num 0, Num 0]]\<rparr>) 0 0) = 12"
proof -
  define raw_cmip6 :: "real dataset" where
    "raw_cmip6 = \<lparr>time = [], lat = [0, 1], lon = [0, 1], pr = replicate 1980 [[0, 0], [0, 0]]\<rparr>"
  define raw_era5 :: "real dataset" where
    "raw_era5 = \<lparr>time = [], lat = [0, 1], lon = [0, 1], pr = replicate 502 [[0, 0], [0, 0]]\<rparr>"
  define shifted :: "real dataset" where
    "shifted = \<lparr>time = time_360_ref_new, lat = [0, 1], lon = [180, 181],
                pr = replicate 502 [[0, 0], [0, 0]]\<rparr>"
  have cm: "assign_coords_time time_360_ref_cmip6 raw_cmip6 =
      Inr \<lparr>time = time_360_ref_cmip6, lat = [0, 1], lon = [0, 1],
            pr = replicate 1980 [[0, 0], [0, 0]]\<rparr>"
    by (simp add: assign_coords_time_def raw_cmip6_def length_time_360_ref_cmip6)
  have er: "assign_coords_time time_360_ref_new raw_era5 =
      Inr \<lparr>time = time_360_ref_new, lat = [0, 1], lon = [0, 1],
            pr = replicate 502 [[0, 0], [0, 0]]\<rparr>"
    by (simp add: assign_coords_time_def raw_era5_def length_time_360_ref_new)
  have sh: "assign_coords_lon_plus_180
      \<lparr>time = time_360_ref_new, lat = [0, 1], lon = [0, 1],
        pr = replicate 502 [[0, 0], [0, 0 :: real]]\<rparr> = shifted"
    by (simp add: assign_coords_lon_plus_180_def shifted_def)
  have "interp (lat shifted) (lon shifted) shifted =
      Inr \<lparr>time = time shifted, lat = lat shifted, lon = lon shifted,
            pr = map (map (map Num)) (pr shifted)\<rparr>"
    by (rule interp_colocated)
      (simp_all add: shifted_def wellshaped_def length_time_360_ref_new)
  then have rm: "interp [0, 1] [180, 181] (assign_coords_lon_plus_180
      \<lparr>time = time_360_ref_new, lat = [0, 1], lon = [0, 1],
        pr = replicate 502 [[0, 0], [0, 0 :: real]]\<rparr>) =
      Inr \<lparr>time = time_360_ref_new, lat = [0, 1], lon = [180, 181],
            pr = replicate 502 [[Num 0, Num 0], [Num 0, Num 0]]\<rparr>"
    unfolding sh by (simp add: shifted_def)
  have y: "(2000 :: int) \<in> {1979..2014}" by simp
  show ?thesis
    using yearly_slices_aligned [OF cm er rm y, of 0 0] by simp
qed

text \<open>
  Claim C7: when the target latitudes and longitudes are the dataset's own (each axis with
  two distinct points at least, in any order), the interpolation succeeds and returns the
  values of the dataset unchanged at every grid cell of every time step.
\<close>

theorem interp_colocated_noop:
  fixes ds :: "real dataset"
  assumes "wellshaped ds"
    and "distinct (lat ds)" and "distinct (lon ds)"
    and "2 \<le> length (lat ds)" and "2 \<le> length (lon ds)"
  shows "interp (lat ds) (lon ds) ds =
     Inr \<lparr>time = time ds, lat = lat ds, lon = lon ds, pr = map (map (map Num)) (pr ds)\<rparr>"
  using assms by (rule interp_colocated)

theorem interp_colocated_noop_witness:
  "interp [10, - 10] [0, 90, 45]
     \<lparr>time = [\<lparr>cf_year = 2000, cf_month = 1, cf_day = 15\<rparr>], lat = [10, - 10],
       lon = [0, 90, 45], pr = [[[1, 2, 3], [4, 5, 6]]]\<rparr> =
   Inr \<lparr>time = [\<lparr>cf_year = 2000, cf_month = 1, cf_day = 15\<rparr>], lat = [10, - 10],
         lon = [0, 90, 45],
         pr = [[[Num 1, Num 2, Num 3], [Num 4, Num 5, Num 6]]]\<rparr>"
  using interp_colocated_noop
    [of "\<lparr>time = [\<lparr>cf_year = 2000, cf_month = 1, cf_day = 15\<rparr>], lat = [10, - 10],
          lon = [0, 90, 45], pr = [[[1, 2, 3], [4, 5, 6]]]\<rparr>"]
  by (simp add: wellshaped_def)

text \<open>
  Claim C10: the longitude axis of the ERA5 dataset is re-assigned to the old axis plus
  180, element by element, with no wrapping to \<open>[0, 360)\<close>: the axis keeps its length, its
  least and greatest values move up by 180, every longitude of 180 or more lands at 360 or
  beyond, and nothing else of the dataset changes.
\<close>

theorem lon_shift_no_wrap:
  "length (lon (assign_coords_lon_plus_180 ds)) = length (lon ds) \<and>
   (\<forall>i < length (lon ds). lon (assign_coords_lon_plus_180 ds) ! i = lon ds ! i + 180) \<and>
   (lon ds \<noteq> [] \<longrightarrow>
      Min (set (lon (assign_coords_lon_plus_180 ds))) = Min (set (lon ds)) + 180 \<and>
      Max (set (lon (assign_coords_lon_plus_180 ds))) = Max (set (lon ds)) + 180) \<and>
   (\<forall>i < length (lon ds). 180 \<le> lon ds ! i \<longrightarrow>
      360 \<le> lon (assign_coords_lon_plus_180 ds) ! i) \<and>
   time (assign_coords_lon_plus_180 ds) = time ds \<and>
   lat (assign_coords_lon_plus_180 ds) = lat ds \<and>
   pr (assign_coords_lon_plus_180 ds) = pr ds"
  using lon_plus_180_Min_Max [of "lon ds"]
  by (simp add: assign_coords_lon_plus_180_def)

theorem lon_shift_no_wrap_witness:
  "lon (assign_coords_lon_plus_180
     \<lparr>time = [], lat = [0], lon = [0, 90, 180, 270], pr = [] :: real list list list\<rparr>)
     = [180, 270, 360, 450] \<and>
   Max (set (lon (assign_coords_lon_plus_180
     \<lparr>time = [], lat = [0], lon = [0, 90, 180, 270], pr = [] :: real list list list\<rparr>))) = 450"
proof -
  let ?ds = "\<lparr>time = [], lat = [0], lon = [0, 90, 180, 270], pr = [] :: real list list list\<rparr>"
  have "lon (assign_coords_lon_plus_180 ?ds) =
      map (\<lambda>i. lon (assign_coords_lon_plus_180 ?ds) ! i) [0..<length (lon ?ds)]"
    using lon_shift_no_wrap [of ?ds] by (metis map_nth)
  also have "\<dots> = map (\<lambda>i. lon ?ds ! i + 180) [0..<length (lon ?ds)]"
    using lon_shift_no_wrap [of ?ds] by (intro map_cong) auto
  also have "\<dots> = [180, 270, 360, 450]"
    by (simp add: upt_rec)
  finally have a: "lon (assign_coords_lon_plus_180 ?ds) = [180, 270, 360, 450]" .
  have "Max (set (lon (assign_coords_lon_plus_180 ?ds))) = Max (set (lon ?ds)) + 180"
    using lon_shift_no_wrap [of ?ds] by simp
  then have "Max (set (lon (assign_coords_lon_plus_180 ?ds))) = 450" by simp
  with a show ?thesis by simp
qed

section \<open>Properties of the frames on disk\<close>

subsection \<open>Names and their order\<close>

lemma digit_char_set: "d < 10 \<Longrightarrow> digit_char d \<in> set ''0123456789''"
  unfolding digit_char_def by (rule nth_mem) simp

lemma str_nat_digits: "set (str_nat n) \<subseteq> set ''0123456789''"
proof (induction n rule: str_nat.induct)
  case (1 n)
  show ?case
  proof (cases "n < 10")
    case True
    then show ?thesis
      using digit_char_set [of n] by (subst str_nat.simps) simp
  next
    case False
    have "n mod 10 < 10" by simp
    then have "digit_char (n mod 10) \<in> set ''0123456789''" by (rule digit_char_set)
    with False 1 show ?thesis
      by (subst str_nat.simps) simp
  qed
qed

lemma str_nat_nonempty: "str_nat n \<noteq> []"
  by (subst str_nat.simps) simp

lemma str_no_slash: "CHR ''/'' \<notin> set (str y)"
proof -
  have "CHR ''/'' \<notin> set (str_nat n)" for n
    using str_nat_digits [of n] by auto
  then show ?thesis by (simp add: str_def)
qed

lemma str_nonempty: "str y \<noteq> []"
  by (simp add: str_def str_nat_nonempty)

lemma frame_path_eq: "frame_path y = ''output/'' @ frame_name y"
  by (simp add: frame_path_def frame_name_def)

lemma in_outdir_output: "in_outdir (''output/'' @ n) = (if n \<noteq> [] \<and> CHR ''/'' \<notin> set n then Some n else None)"
  by (simp add: in_outdir_def)

lemma frame_name_valid: "frame_name y \<noteq> [] \<and> CHR ''/'' \<notin> set (frame_name y)"
  by (simp add: frame_name_def str_no_slash)

lemma in_outdir_frame_path: "in_outdir (frame_path y) = Some (frame_name y)"
  unfolding frame_path_eq in_outdir_output using frame_name_valid [of y] by simp

lemma fnmatch_frame_name: "fnmatch_frame (frame_name y)"
proof -
  have "length (str y) \<noteq> 0" using str_nonempty [of y] by simp
  then show ?thesis
    by (simp add: fnmatch_frame_def frame_name_def)
qed

lemma not_fnmatch_gif: "\<not> fnmatch_frame ''correlation.gif''"
  by (simp add: fnmatch_frame_def)

lemma in_outdir_gif: "in_outdir ''output/correlation.gif'' = Some ''correlation.gif''"
  by (simp add: in_outdir_def)

lemma str_years:
  "map str (map (\<lambda>i. 1979 + int i) [0..<36]) =
     [''1979'', ''1980'', ''1981'', ''1982'', ''1983'', ''1984'', ''1985'', ''1986'', ''1987'',
      ''1988'', ''1989'', ''1990'', ''1991'', ''1992'', ''1993'', ''1994'', ''1995'', ''1996'',
      ''1997'', ''1998'', ''1999'', ''2000'', ''2001'', ''2002'', ''2003'', ''2004'', ''2005'',
      ''2006'', ''2007'', ''2008'', ''2009'', ''2010'', ''2011'', ''2012'', ''2013'', ''2014'']"
  by (simp add: upt_rec str_def str_nat.simps digit_char_def)


lemma strict_sorted_adjacent:
  fixes x :: "'a :: linorder"
  shows "sorted_wrt (<) (x # y # zs) \<longleftrightarrow> x < y \<and> sorted_wrt (<) (y # zs)"
  by auto

lemma append_less_append_left:
  fixes a b :: "'a :: linorder list"
  shows "p @ a < p @ b \<longleftrightarrow> a < b"
  by (induction p) simp_all

lemma append_less_append_right:
  fixes a b :: "'a :: linorder list"
  shows "length a = length b \<Longrightarrow> a < b \<Longrightarrow> a @ q < b @ q"
  by (induction a b rule: list_induct2) auto

lemma strict_sorted_wrap:
  fixes ss :: "'a :: linorder list list"
  assumes "\<forall>s \<in> set ss. length s = n" and "sorted_wrt (<) ss"
  shows "sorted_wrt (<) (map (\<lambda>s. p @ s @ q) ss)"
proof -
  have "sorted_wrt (\<lambda>s t. p @ s @ q < p @ t @ q) ss"
    using assms(2)
  proof (rule sorted_wrt_mono_rel [rotated])
    fix s t assume "s \<in> set ss" "t \<in> set ss" "s < t"
    then show "p @ s @ q < p @ t @ q"
      using assms(1) by (simp add: append_less_append_left append_less_append_right)
  qed
  then show ?thesis by (simp add: sorted_wrt_map)
qed

lemma strict_sorted_single:
  fixes x :: "'a :: linorder"
  shows "sorted_wrt (<) [x]"
  by simp

lemma frame_path_str:
  "map frame_path ys = map (\<lambda>s. ''output/Correlation_of_Pr_CMIP6_vs_ERA5_'' @ s @ ''.png'') (map str ys)"
  by (simp add: frame_path_def)

lemma sorted_frame_paths:
  "sorted_wrt (<) (map frame_path (map (\<lambda>i. 1979 + int i) [0..<36]))"
  unfolding frame_path_str str_years
  by (rule strict_sorted_wrap [where n = 4])
    (simp_all add: strict_sorted_adjacent strict_sorted_single del: sorted_wrt.simps(2))

lemma str_1978: "str 1978 = ''1978''"
  by (simp add: str_def str_nat.simps digit_char_def)

lemma sorted_frame_paths_1978:
  "sorted_wrt (<) (map frame_path (1978 # map (\<lambda>i. 1979 + int i) [0..<36]))"
proof -
  have ys: "map str (1978 # map (\<lambda>i. 1979 + int i) [0..<36]) =
      ''1978'' # map str (map (\<lambda>i. 1979 + int i) [0..<36])"
    by (simp only: list.map str_1978)
  show ?thesis
    unfolding frame_path_str ys str_years
    by (rule strict_sorted_wrap [where n = 4])
      (simp_all add: strict_sorted_adjacent strict_sorted_single del: sorted_wrt.simps(2))
qed

subsection \<open>Loops over the output directory\<close>

lemma savefig_Dir:
  assumes "in_outdir p = Some n"
  shows "savefig p img (Dir es) =
     (if map_of es n = Some SubDir then Inl OSError else Inr (Dir (AList.update n (PNG img) es)))"
  using assms by (simp add: savefig_def write_file_def)

lemma for_each_savefig:
  assumes "\<forall>x \<in> set xs. in_outdir (P x) = Some (N x)"
  shows "for_each xs (\<lambda>x. savefig (P x) (R x)) (Dir es) =
     (if \<exists>x \<in> set xs. map_of es (N x) = Some SubDir then Inl OSError
      else Inr (Dir (AList.updates (map N xs) (map (\<lambda>x. PNG (R x)) xs) es)))"
  using assms
proof (induction xs arbitrary: es)
  case Nil
  then show ?case by simp
next
  case (Cons x xs)
  have px: "in_outdir (P x) = Some (N x)" using Cons.prems by simp
  have rest: "\<forall>x \<in> set xs. in_outdir (P x) = Some (N x)" using Cons.prems by simp
  show ?case
  proof (cases "map_of es (N x) = Some SubDir")
    case True
    then show ?thesis by (simp add: savefig_Dir [OF px])
  next
    case False
    have same: "(map_of (AList.update (N x) (PNG (R x)) es) (N y) = Some SubDir)
        = (map_of es (N y) = Some SubDir)" for y
      using False by (simp add: AList.update_conv')
    show ?thesis
      using False by (simp add: savefig_Dir [OF px] Cons.IH [OF rest] same)
  qed
qed

lemma updates_frames_lookup:
  assumes "distinct (map N xs)" and "x \<in> set xs"
  shows "map_of (AList.updates (map N xs) (map V xs) es) (N x) = Some (V x)"
  using assms
proof (induction xs arbitrary: es)
  case Nil
  then show ?case by simp
next
  case (Cons a xs)
  have d: "distinct (map N xs)" and fresh: "N a \<notin> set (map N xs)"
    using Cons.prems by simp_all
  have unfold: "AList.updates (map N (a # xs)) (map V (a # xs)) es
      = AList.updates (map N xs) (map V xs) (AList.update (N a) (V a) es)"
    by (simp del: AList.updates_twist)
  show ?case
  proof (cases "x \<in> set xs")
    case True
    show ?thesis unfolding unfold by (rule Cons.IH [OF d True])
  next
    case False
    with Cons.prems have "x = a" by simp
    then show ?thesis
      unfolding unfold using fresh by (simp add: AList.update_conv')
  qed
qed

lemma updates_keys_set:
  "fst ` set (AList.updates (map N xs) (map V xs) es) = N ` set xs \<union> fst ` set es"
  by (induction xs arbitrary: es) (auto simp: AList.dom_update)

lemma collect_map:
  assumes "\<forall>x \<in> set xs. f x = Inr (g x)"
  shows "collect f xs = Inr (map g xs)"
  using assms by (induction xs) simp_all

lemmas in_outdir_output_simp = in_outdir_output [unfolded append.simps]

lemma os_remove_Dir:
  assumes "n \<noteq> []" "CHR ''/'' \<notin> set n" "map_of es n = Some e" "e \<noteq> SubDir"
  shows "os_remove (''output/'' @ n) (Dir es) = Inr (Dir (AList.delete n es))"
  using assms by (cases e) (simp_all add: os_remove_def in_outdir_output_simp)

lemma os_remove_Inr:
  assumes "os_remove (''output/'' @ n) (Dir es) = Inr node"
  shows "node = Dir (AList.delete n es)"
  using assms
  by (auto simp: os_remove_def in_outdir_output_simp split: if_splits option.splits entry.splits)

lemma delete_filter: "AList.delete n es = filter (\<lambda>p. fst p \<noteq> n) es"
  by (induction es) auto

lemma filter_remove_step:
  "filter (\<lambda>p. fst p \<notin> set ns) (filter (\<lambda>p. fst p \<noteq> n) es)
     = filter (\<lambda>p. fst p \<notin> set (n # ns)) es"
  by (induction es) auto

lemma for_each_os_remove:
  assumes "distinct ns"
    and "\<forall>n \<in> set ns. n \<noteq> [] \<and> CHR ''/'' \<notin> set n"
    and "\<forall>n \<in> set ns. \<exists>e. map_of es n = Some e \<and> e \<noteq> SubDir"
  shows "for_each (map (\<lambda>n. ''output/'' @ n) ns) os_remove (Dir es)
     = Inr (Dir (filter (\<lambda>p. fst p \<notin> set ns) es))"
  using assms
proof (induction ns arbitrary: es)
  case Nil
  then show ?case by simp
next
  case (Cons n ns)
  from Cons.prems obtain e where e: "map_of es n = Some e" "e \<noteq> SubDir" by auto
  have v: "n \<noteq> []" "CHR ''/'' \<notin> set n" using Cons.prems by auto
  have step: "os_remove (''output/'' @ n) (Dir es) = Inr (Dir (AList.delete n es))"
    using v e by (rule os_remove_Dir)
  have keep: "\<forall>m \<in> set ns. \<exists>e. map_of (AList.delete n es) m = Some e \<and> e \<noteq> SubDir"
    using Cons.prems by (auto simp: AList.delete_conv')
  have "for_each (map (\<lambda>n. ''output/'' @ n) (n # ns)) os_remove (Dir es)
      = for_each (map (\<lambda>n. ''output/'' @ n) ns) os_remove (Dir (AList.delete n es))"
    by (simp only: list.map for_each.simps step sum.case)
  also have "\<dots> = Inr (Dir (filter (\<lambda>p. fst p \<notin> set ns) (AList.delete n es)))"
    using Cons.prems keep by (intro Cons.IH) auto
  also have "\<dots> = Inr (Dir (filter (\<lambda>p. fst p \<notin> set (n # ns)) es))"
    by (simp only: delete_filter filter_remove_step)
  finally show ?case .
qed

lemma for_each_os_remove_Inr:
  assumes "for_each (map (\<lambda>n. ''output/'' @ n) ns) os_remove (Dir es) = Inr node"
  shows "node = Dir (filter (\<lambda>p. fst p \<notin> set ns) es)"
  using assms
proof (induction ns arbitrary: es)
  case Nil
  then show ?case by simp
next
  case (Cons n ns)
  from Cons.prems obtain mid where mid: "os_remove (''output/'' @ n) (Dir es) = Inr mid"
    and rest: "for_each (map (\<lambda>n. ''output/'' @ n) ns) os_remove mid = Inr node"
    by (auto simp del: append.simps split: sum.splits)
  have "mid = Dir (AList.delete n es)" using mid by (rule os_remove_Inr)
  with rest have "node = Dir (filter (\<lambda>p. fst p \<notin> set ns) (AList.delete n es))"
    by (intro Cons.IH) simp
  then show ?case by (simp only: delete_filter filter_remove_step)
qed

lemma map_of_filter_keys:
  "map_of (filter (\<lambda>p. Q (fst p)) es) n = (if Q n then map_of es n else None)"
  by (induction es) auto

lemma filter_matching_keys:
  "filter (\<lambda>p. fst p \<notin> set (filter Q (map fst es))) es = filter (\<lambda>p. \<not> Q (fst p)) es"
  by (rule filter_cong) auto

lemma glob_frames_update_other:
  assumes "\<not> fnmatch_frame k"
  shows "filter fnmatch_frame (map fst (AList.update k v es)) = filter fnmatch_frame (map fst es)"
  using assms by (simp add: AList.update_keys)

subsection \<open>The two cells\<close>

lemma frame_years_upto: "frame_years = [1979..2014]"
  by (simp add: frame_years_def upt_rec upto.simps)

lemma set_frame_years: "set frame_years = {1979..2014}"
  by (simp only: frame_years_upto set_upto)

lemma length_frame_years: "length frame_years = 36"
  by (simp add: frame_years_def)

lemma sorted_frame_years: "sorted_wrt (<) (map frame_path frame_years)"
  unfolding frame_years_def by (rule sorted_frame_paths)

lemma distinct_frame_paths: "distinct (map frame_path frame_years)"
  using sorted_frame_years by (simp add: strict_sorted_iff)

lemma distinct_frame_names: "distinct (map frame_name frame_years)"
proof -
  have "map frame_path frame_years = map (\<lambda>n. ''output/'' @ n) (map frame_name frame_years)"
    by (simp add: frame_path_eq)
  with distinct_frame_paths show ?thesis
    by (metis distinct_map)
qed

lemma make_frames_Dir:
  "make_frames render (Dir es) =
     (if \<exists>y \<in> set frame_years. map_of es (frame_name y) = Some SubDir then Inl OSError
      else Inr (Dir (AList.updates (map frame_name frame_years)
                       (map (\<lambda>y. PNG (render y)) frame_years) es)))"
proof -
  have "for_each [0..<36]
      (\<lambda>i. savefig (frame_path (1979 + int i)) (render (1979 + int i))) (Dir es) =
     (if \<exists>i \<in> set [0..<36]. map_of es (frame_name (1979 + int i)) = Some SubDir then Inl OSError
      else Inr (Dir (AList.updates (map (\<lambda>i. frame_name (1979 + int i)) [0..<36])
                       (map (\<lambda>i. PNG (render (1979 + int i))) [0..<36]) es)))"
    by (rule for_each_savefig) (simp add: in_outdir_frame_path)
  then show ?thesis
    by (simp add: make_frames_def ensure_outdir_def Let_def frame_years_def o_def del: upt_Suc set_upt)
qed

lemma make_frames_Absent: "make_frames render Absent = make_frames render (Dir [])"
  by (simp add: make_frames_def ensure_outdir_def)

lemma make_frames_NotDir: "make_frames render NotDir = Inl OSError"
proof -
  have "[0..<36] = 0 # [1..<36]" by (simp add: upt_rec)
  then show ?thesis
    by (simp add: make_frames_def ensure_outdir_def savefig_def write_file_def Let_def del: upt_Suc)
qed


lemma image_open_frame:
  assumes "map_of es (frame_name y) = Some (PNG img)"
  shows "image_open (Dir es) (frame_path y) = Inr [img]"
  using assms by (simp add: image_open_def in_outdir_frame_path)

lemma write_gif_Dir:
  "write_file ''output/correlation.gif'' e (Dir es) =
     (if map_of es ''correlation.gif'' = Some SubDir then Inl OSError
      else Inr (Dir (AList.update ''correlation.gif'' e es)))"
  by (simp add: write_file_def in_outdir_gif)

lemma glob_frames_Dir:
  "glob_frames (Dir es) = map (\<lambda>n. ''output/'' @ n) (filter fnmatch_frame (map fst es))"
  by (simp add: glob_frames_def)

lemma sort_glob_frames:
  assumes d: "distinct (map fst es)"
    and g: "set (filter fnmatch_frame (map fst es)) = frame_name ` set ys"
    and s: "sorted_wrt (<) (map frame_path ys)"
  shows "sort (glob_frames (Dir es)) = map frame_path ys"
proof (rule sorted_distinct_set_unique)
  show "sorted (sort (glob_frames (Dir es)))" by simp
  have "distinct (filter fnmatch_frame (map fst es))" using d by simp
  then have "distinct (glob_frames (Dir es))"
    unfolding glob_frames_Dir by (simp add: distinct_map inj_on_def)
  then show "distinct (sort (glob_frames (Dir es)))" by simp
  show "sorted (map frame_path ys)" and "distinct (map frame_path ys)"
    using s by (simp_all add: strict_sorted_iff)
  have "set (glob_frames (Dir es)) = (\<lambda>n. ''output/'' @ n) ` frame_name ` set ys"
    unfolding glob_frames_Dir set_map g ..
  also have "\<dots> = set (map frame_path ys)"
    by (simp add: image_image frame_path_eq)
  finally show "set (sort (glob_frames (Dir es))) = set (map frame_path ys)" by simp
qed

lemma collect_map_image:
  assumes "\<forall>x \<in> set xs. f (h x) = Inr (g x)"
  shows "collect f (map h xs) = Inr (map g xs)"
  using assms by (induction xs) simp_all

lemma make_gif_years:
  assumes d: "distinct (map fst es)"
    and g: "set (filter fnmatch_frame (map fst es)) = frame_name ` set ys"
    and s: "sorted_wrt (<) (map frame_path ys)"
    and c: "\<forall>y \<in> set ys. map_of es (frame_name y) = Some (PNG (c y))"
    and ne: "ys \<noteq> []"
    and gif: "map_of es ''correlation.gif'' \<noteq> Some SubDir"
  shows "make_gif (Dir es) =
     Inr (Dir (filter (\<lambda>p. \<not> fnmatch_frame (fst p))
                (AList.update ''correlation.gif'' (GIF (map c ys)) es)))"
proof -
  let ?G = "filter fnmatch_frame (map fst es)"
  let ?es3 = "AList.update ''correlation.gif'' (GIF (map c ys)) es"
  have col: "collect (image_open (Dir es)) (sort (glob_frames (Dir es))) = Inr (map (\<lambda>y. [c y]) ys)"
    unfolding sort_glob_frames [OF d g s]
    using c by (intro collect_map_image) (simp add: image_open_frame)
  obtain y0 ys' where ys: "ys = y0 # ys'" using ne by (cases ys) auto
  have cc: "concat (map (\<lambda>y. [c y]) ys) = map c ys" by (induction ys) simp_all
  have g3: "glob_frames (Dir ?es3) = map (\<lambda>n. ''output/'' @ n) ?G"
    unfolding glob_frames_Dir by (simp only: glob_frames_update_other [OF not_fnmatch_gif])
  have valid: "\<forall>n \<in> set ?G. n \<noteq> [] \<and> CHR ''/'' \<notin> set n"
    unfolding g using frame_name_valid by auto
  have present: "\<forall>n \<in> set ?G. \<exists>e. map_of ?es3 n = Some e \<and> e \<noteq> SubDir"
  proof
    fix n assume "n \<in> set ?G"
    then obtain y where y: "y \<in> set ys" "n = frame_name y" unfolding g by auto
    then have "n \<noteq> ''correlation.gif''"
      using fnmatch_frame_name [of y] not_fnmatch_gif by auto
    then have "map_of ?es3 n = Some (PNG (c y))"
      using c y by (simp add: AList.update_conv')
    then show "\<exists>e. map_of ?es3 n = Some e \<and> e \<noteq> SubDir" by simp
  qed
  have clean: "for_each (glob_frames (Dir ?es3)) os_remove (Dir ?es3)
      = Inr (Dir (filter (\<lambda>p. fst p \<notin> set ?G) ?es3))"
    unfolding g3 using d valid present by (intro for_each_os_remove) simp_all
  have keys: "filter (\<lambda>p. fst p \<notin> set ?G) ?es3 = filter (\<lambda>p. \<not> fnmatch_frame (fst p)) ?es3"
    using filter_matching_keys [of fnmatch_frame ?es3]
    by (simp only: glob_frames_update_other [OF not_fnmatch_gif])
  have w: "write_file ''output/correlation.gif'' (GIF (map c ys)) (Dir es) = Inr (Dir ?es3)"
    using gif by (simp add: write_gif_Dir)
  have "make_gif (Dir es) =
      (case write_file ''output/correlation.gif'' (GIF (concat (map (\<lambda>y. [c y]) ys))) (Dir es) of
         Inl e \<Rightarrow> Inl e
       | Inr node' \<Rightarrow> for_each (glob_frames node') os_remove node')"
    unfolding make_gif_def col by (simp add: ys)
  then show ?thesis
    unfolding cc w by (simp only: sum.case clean keys)
qed

lemma frames_lookup:
  assumes "y \<in> set frame_years"
  shows "map_of (AList.updates (map frame_name frame_years)
            (map (\<lambda>y. PNG (render y)) frame_years) es) (frame_name y) = Some (PNG (render y))"
  using distinct_frame_names assms by (rule updates_frames_lookup)

lemma frames_other:
  assumes "n \<notin> frame_name ` set frame_years"
  shows "map_of (AList.updates (map frame_name frame_years)
            (map (\<lambda>y. PNG (render y)) frame_years) es) n = map_of es n"
  using assms by (intro AList.updates_apply_notin) simp

lemma frames_keys:
  "fst ` set (AList.updates (map frame_name frame_years)
            (map (\<lambda>y. PNG (render y)) frame_years) es)
     = frame_name ` set frame_years \<union> fst ` set es"
  by (rule updates_keys_set)

lemma frames_distinct:
  assumes "distinct (map fst es)"
  shows "distinct (map fst (AList.updates (map frame_name frame_years)
            (map (\<lambda>y. PNG (render y)) frame_years) es))"
  using assms by (rule AList.distinct_updates)

lemma frames_not_SubDir:
  assumes "map_of es n \<noteq> Some SubDir"
  shows "map_of (AList.updates (map frame_name frame_years)
            (map (\<lambda>y. PNG (render y)) frame_years) es) n \<noteq> Some SubDir"
proof (cases "n \<in> frame_name ` set frame_years")
  case True
  then obtain y where "y \<in> set frame_years" "n = frame_name y" by auto
  then show ?thesis by (simp add: frames_lookup)
next
  case False
  then show ?thesis using assms by (simp add: frames_other)
qed

lemma make_animation_clean:
  assumes d: "distinct (map fst es)"
    and clean: "\<forall>n \<in> set (map fst es). fnmatch_frame n \<longrightarrow> n \<in> frame_name ` set frame_years"
    and nosub: "\<forall>y \<in> set frame_years. map_of es (frame_name y) \<noteq> Some SubDir"
    and gif: "map_of es ''correlation.gif'' \<noteq> Some SubDir"
  shows "make_animation render (Dir es) =
     Inr (Dir (filter (\<lambda>p. \<not> fnmatch_frame (fst p))
       (AList.update ''correlation.gif'' (GIF (map render frame_years))
         (AList.updates (map frame_name frame_years)
            (map (\<lambda>y. PNG (render y)) frame_years) es))))"
proof -
  let ?es1 = "AList.updates (map frame_name frame_years)
            (map (\<lambda>y. PNG (render y)) frame_years) es"
  have mf: "make_frames render (Dir es) = Inr (Dir ?es1)"
    using nosub by (simp add: make_frames_Dir)
  have g: "set (filter fnmatch_frame (map fst ?es1)) = frame_name ` set frame_years"
    using clean fnmatch_frame_name by (auto simp: frames_keys)
  have ne: "frame_years \<noteq> []"
    using length_frame_years by auto
  have "make_gif (Dir ?es1) =
     Inr (Dir (filter (\<lambda>p. \<not> fnmatch_frame (fst p))
                (AList.update ''correlation.gif'' (GIF (map render frame_years)) ?es1)))"
    using frames_distinct [OF d] g sorted_frame_years _ ne frames_not_SubDir [OF gif]
    by (rule make_gif_years) (simp add: frames_lookup)
  then show ?thesis
    by (simp add: make_animation_def mf)
qed

lemma make_animation_stale_1978:
  "make_animation render (Dir [(frame_name 1978, PNG img)]) =
     Inr (Dir (filter (\<lambda>p. \<not> fnmatch_frame (fst p))
       (AList.update ''correlation.gif'' (GIF (img # map render frame_years))
         (AList.updates (map frame_name frame_years)
            (map (\<lambda>y. PNG (render y)) frame_years) [(frame_name 1978, PNG img)]))))"
proof -
  let ?es = "[(frame_name 1978, PNG img)]"
  let ?es1 = "AList.updates (map frame_name frame_years)
            (map (\<lambda>y. PNG (render y)) frame_years) ?es"
  let ?c = "\<lambda>y. if y = 1978 then img else render y"
  have s: "sorted_wrt (<) (map frame_path (1978 # frame_years))"
    unfolding frame_years_def by (rule sorted_frame_paths_1978)
  then have "distinct (map frame_path (1978 # frame_years))"
    by (simp only: strict_sorted_iff)
  then have fresh: "frame_name 1978 \<notin> frame_name ` set frame_years"
    by (auto simp: frame_path_eq)
  then have y78: "1978 \<notin> set frame_years" by auto
  have mf: "make_frames render (Dir ?es) = Inr (Dir ?es1)"
    using fresh by (auto simp: make_frames_Dir)
  have g: "set (filter fnmatch_frame (map fst ?es1)) = frame_name ` set (1978 # frame_years)"
    using fnmatch_frame_name by (auto simp: frames_keys)
  have c: "\<forall>y \<in> set (1978 # frame_years). map_of ?es1 (frame_name y) = Some (PNG (?c y))"
    using fresh y78 by (auto simp: frames_lookup frames_other)
  have gif: "map_of ?es1 ''correlation.gif'' \<noteq> Some SubDir"
    by (rule frames_not_SubDir) simp
  have mc: "map ?c (1978 # frame_years) = img # map render frame_years"
    using y78 by auto
  have "make_gif (Dir ?es1) =
     Inr (Dir (filter (\<lambda>p. \<not> fnmatch_frame (fst p))
                (AList.update ''correlation.gif'' (GIF (map ?c (1978 # frame_years))) ?es1)))"
    using frames_distinct [of ?es] g s c _ gif by (rule make_gif_years) simp_all
  then show ?thesis
    unfolding mc by (simp add: make_animation_def mf)
qed

lemma gif_after_cleanup:
  "map_of (filter (\<lambda>p. \<not> fnmatch_frame (fst p)) (AList.update ''correlation.gif'' e es))
     ''correlation.gif'' = Some e"
proof -
  have "map_of (filter (\<lambda>p. \<not> fnmatch_frame (fst p)) (AList.update ''correlation.gif'' e es))
      ''correlation.gif''
      = (if \<not> fnmatch_frame ''correlation.gif''
         then map_of (AList.update ''correlation.gif'' e es) ''correlation.gif'' else None)"
    by (rule map_of_filter_keys)
  also have "\<dots> = Some e"
    using not_fnmatch_gif by (simp add: AList.update_conv')
  finally show ?thesis .
qed

lemma entry_at_gif:
  "entry_at (Dir es) ''output/correlation.gif'' = map_of es ''correlation.gif''"
  by (simp add: entry_at_def in_outdir_gif)

lemma animation_frames_clean:
  assumes "distinct (map fst es)"
    and "\<forall>n \<in> set (map fst es). fnmatch_frame n \<longrightarrow> n \<in> frame_name ` set frame_years"
    and "\<forall>y \<in> set frame_years. map_of es (frame_name y) \<noteq> Some SubDir"
    and "map_of es ''correlation.gif'' \<noteq> Some SubDir"
  shows "animation_frames render (Dir es) = Some (map render frame_years)"
  unfolding animation_frames_def make_animation_clean [OF assms]
  by (simp add: entry_at_gif gif_after_cleanup)

lemma animation_frames_stale_1978:
  "animation_frames render (Dir [(frame_name 1978, PNG img)]) = Some (img # map render frame_years)"
  unfolding animation_frames_def make_animation_stale_1978
  by (simp add: entry_at_gif gif_after_cleanup)

lemma frame_name_1978: "frame_name 1978 = ''Correlation_of_Pr_CMIP6_vs_ERA5_1978.png''"
  by (simp add: frame_name_def str_1978)

lemma make_frames_Inr:
  assumes "make_frames render node = Inr node'"
  obtains es where "node = Absent \<and> es = [] \<or> node = Dir es"
    and "\<forall>y \<in> set frame_years. map_of es (frame_name y) \<noteq> Some SubDir"
    and "node' = Dir (AList.updates (map frame_name frame_years)
                       (map (\<lambda>y. PNG (render y)) frame_years) es)"
proof (cases node)
  case Absent
  with assms have "make_frames render (Dir []) = Inr node'"
    by (simp add: make_frames_Absent)
  then show ?thesis
    using Absent that [of "[]"] by (auto simp: make_frames_Dir split: if_splits)
next
  case NotDir
  with assms show ?thesis by (simp add: make_frames_NotDir)
next
  case (Dir es)
  with assms show ?thesis
    using that [of es] by (auto simp: make_frames_Dir split: if_splits)
qed

lemma make_gif_Inr:
  assumes "make_gif node = Inr node'"
  obtains es imgs where "node = Dir es" and "map_of es ''correlation.gif'' \<noteq> Some SubDir"
    and "node' = Dir (filter (\<lambda>p. \<not> fnmatch_frame (fst p))
                       (AList.update ''correlation.gif'' (GIF imgs) es))"
proof (cases node)
  case Absent
  with assms show ?thesis by (simp add: make_gif_def glob_frames_def)
next
  case NotDir
  with assms show ?thesis by (simp add: make_gif_def glob_frames_def)
next
  case (Dir es)
  from assms obtain img imgs where
    w: "(case write_file ''output/correlation.gif'' (GIF (concat (img # imgs))) node of
           Inl e \<Rightarrow> Inl e
         | Inr n \<Rightarrow> for_each (glob_frames n) os_remove n) = Inr node'"
    by (auto simp: make_gif_def split: sum.splits list.splits)
  let ?es3 = "AList.update ''correlation.gif'' (GIF (concat (img # imgs))) es"
  have ok: "map_of es ''correlation.gif'' \<noteq> Some SubDir"
    using w unfolding Dir write_gif_Dir by (auto split: if_splits)
  then have "for_each (glob_frames (Dir ?es3)) os_remove (Dir ?es3) = Inr node'"
    using w unfolding Dir write_gif_Dir by simp
  then have "node' = Dir (filter (\<lambda>p. fst p \<notin> set (filter fnmatch_frame (map fst ?es3))) ?es3)"
    unfolding glob_frames_Dir by (rule for_each_os_remove_Inr)
  then have "node' = Dir (filter (\<lambda>p. \<not> fnmatch_frame (fst p)) ?es3)"
    by (simp only: filter_matching_keys)
  with Dir ok show ?thesis using that by blast
qed

lemma entry_at_Dir:
  "entry_at (Dir es) p = (case in_outdir p of None \<Rightarrow> None | Some n \<Rightarrow> map_of es n)"
  by (simp add: entry_at_def)


lemma in_outdir_Some:
  assumes "in_outdir p = Some n"
  shows "p = ''output/'' @ n"
proof -
  from assms have "take 7 p = ''output/''" and "drop 7 p = n"
    by (simp_all add: in_outdir_def split: if_splits)
  then have "take 7 p @ drop 7 p = ''output/'' @ n" by (simp only:)
  then show ?thesis by (simp only: append_take_drop_id)
qed

lemma frame_path_image: "frame_path ` set frame_years = (\<lambda>n. ''output/'' @ n) ` frame_name ` set frame_years"
  by (simp add: image_image frame_path_eq)

lemma map_of_after_cleanup:
  "map_of (filter (\<lambda>p. \<not> fnmatch_frame (fst p)) es) n = (if fnmatch_frame n then None else map_of es n)"
  using map_of_filter_keys [of "\<lambda>k. \<not> fnmatch_frame k" es n] by simp

lemma keys_after_cleanup:
  "filter fnmatch_frame (map fst (filter (\<lambda>p. \<not> fnmatch_frame (fst p)) es)) = []"
  by (induction es) auto

lemma make_animation_Inr:
  assumes "make_animation render node = Inr node'"
  obtains es imgs where "node = Absent \<and> es = [] \<or> node = Dir es"
    and "\<forall>y \<in> set frame_years. map_of es (frame_name y) \<noteq> Some SubDir"
    and "map_of es ''correlation.gif'' \<noteq> Some SubDir"
    and "node' = Dir (filter (\<lambda>p. \<not> fnmatch_frame (fst p))
           (AList.update ''correlation.gif'' (GIF imgs)
             (AList.updates (map frame_name frame_years)
                (map (\<lambda>y. PNG (render y)) frame_years) es)))"
proof -
  from assms obtain n1 where mf: "make_frames render node = Inr n1" and mg: "make_gif n1 = Inr node'"
    by (auto simp: make_animation_def split: sum.splits)
  from mf obtain es where es: "node = Absent \<and> es = [] \<or> node = Dir es"
    and nosub: "\<forall>y \<in> set frame_years. map_of es (frame_name y) \<noteq> Some SubDir"
    and n1: "n1 = Dir (AList.updates (map frame_name frame_years)
                       (map (\<lambda>y. PNG (render y)) frame_years) es)"
    by (rule make_frames_Inr)
  from mg obtain es1 imgs where e1: "n1 = Dir es1"
    and gif1: "map_of es1 ''correlation.gif'' \<noteq> Some SubDir"
    and n': "node' = Dir (filter (\<lambda>p. \<not> fnmatch_frame (fst p))
                       (AList.update ''correlation.gif'' (GIF imgs) es1))"
    by (rule make_gif_Inr)
  have gifname: "''correlation.gif'' \<notin> frame_name ` set frame_years"
  proof
    assume "''correlation.gif'' \<in> frame_name ` set frame_years"
    then obtain y where "''correlation.gif'' = frame_name y" by blast
    with fnmatch_frame_name [of y] not_fnmatch_gif show False by simp
  qed
  from e1 n1 have es1: "es1 = AList.updates (map frame_name frame_years)
                       (map (\<lambda>y. PNG (render y)) frame_years) es"
    by simp
  have gif: "map_of es ''correlation.gif'' \<noteq> Some SubDir"
    using gif1 unfolding es1 frames_other [OF gifname] .
  show ?thesis
    by (rule that [OF es nosub gif n' [unfolded es1]])
qed

lemma entry_at_start:
  assumes "node = Absent \<and> es = [] \<or> node = Dir es"
  shows "entry_at node p = (case in_outdir p of None \<Rightarrow> None | Some n \<Rightarrow> map_of es n)"
  using assms by (auto simp: entry_at_def split: option.splits)

section \<open>Claims about the frames and the animation\<close>



text \<open>
  Claim C8: after a run of both cells that completes, the pattern of the frames matches
  nothing in the output directory, so no per-year image is left;
  \<^verbatim>\<open>output/correlation.gif\<close> holds an animation; and every other entry is as it was
  before the run.
\<close>

theorem no_frames_remain:
  assumes "make_animation render node = Inr node'"
  shows "glob_frames node' = [] \<and>
         (\<forall>p n. in_outdir p = Some n \<and> fnmatch_frame n \<longrightarrow> entry_at node' p = None) \<and>
         (\<exists>imgs. entry_at node' ''output/correlation.gif'' = Some (GIF imgs)) \<and>
         (\<forall>p n. in_outdir p = Some n \<and> \<not> fnmatch_frame n \<and> p \<noteq> ''output/correlation.gif''
            \<longrightarrow> entry_at node' p = entry_at node p)"
proof -
  from assms obtain es imgs where es: "node = Absent \<and> es = [] \<or> node = Dir es"
    and n': "node' = Dir (filter (\<lambda>p. \<not> fnmatch_frame (fst p))
           (AList.update ''correlation.gif'' (GIF imgs)
             (AList.updates (map frame_name frame_years)
                (map (\<lambda>y. PNG (render y)) frame_years) es)))"
    by (rule make_animation_Inr)
  have g: "glob_frames node' = []"
    unfolding n' glob_frames_Dir by (simp only: keys_after_cleanup list.map)
  have m: "entry_at node' p = None" if "in_outdir p = Some n" "fnmatch_frame n" for p n
    using that by (simp add: n' entry_at_Dir map_of_after_cleanup)
  have a: "entry_at node' ''output/correlation.gif'' = Some (GIF imgs)"
    unfolding n' entry_at_gif by (rule gif_after_cleanup)
  have o: "entry_at node' p = entry_at node p"
    if p: "in_outdir p = Some n" "\<not> fnmatch_frame n" "p \<noteq> ''output/correlation.gif''" for p n
  proof -
    have "n \<noteq> ''correlation.gif''"
      using in_outdir_Some [OF p(1)] p(3) by auto
    moreover have "n \<notin> frame_name ` set frame_years"
      using p(2) fnmatch_frame_name by auto
    ultimately show ?thesis
      using p(1,2)
      by (simp add: n' entry_at_Dir entry_at_start [OF es] map_of_after_cleanup
          AList.update_conv' frames_other)
  qed
  from g m a o show ?thesis by blast
qed

text \<open>A run from a working directory without \<^verbatim>\<open>output\<close> completes.\<close>

theorem no_frames_remain_witness:
  "glob_frames (Dir (filter (\<lambda>p. \<not> fnmatch_frame (fst p))
       (AList.update ''correlation.gif'' (GIF frame_years)
         (AList.updates (map frame_name frame_years) (map PNG frame_years) [])))) = [] \<and>
   entry_at (Dir (filter (\<lambda>p. \<not> fnmatch_frame (fst p))
       (AList.update ''correlation.gif'' (GIF frame_years)
         (AList.updates (map frame_name frame_years) (map PNG frame_years) []))))
     (frame_path 2000) = None"
proof -
  have "make_animation (\<lambda>y. y) (Dir []) =
     Inr (Dir (filter (\<lambda>p. \<not> fnmatch_frame (fst p))
       (AList.update ''correlation.gif'' (GIF (map (\<lambda>y. y) frame_years))
         (AList.updates (map frame_name frame_years)
            (map (\<lambda>y. PNG y) frame_years) []))))"
    by (rule make_animation_clean) simp_all
  then have run: "make_animation (\<lambda>y. y) Absent =
     Inr (Dir (filter (\<lambda>p. \<not> fnmatch_frame (fst p))
       (AList.update ''correlation.gif'' (GIF frame_years)
         (AList.updates (map frame_name frame_years) (map PNG frame_years) []))))"
    by (simp add: make_animation_def make_frames_Absent)
  have "in_outdir (frame_path 2000) = Some (frame_name 2000) \<and> fnmatch_frame (frame_name 2000)"
    by (simp add: in_outdir_frame_path fnmatch_frame_name)
  then show ?thesis
    using no_frames_remain [OF run] by blast
qed

text \<open>
  Claim C6, as stated: the final animation has exactly 36 frames, in ascending year
  order. The assembly reads every file that matches the pattern, so a matching file left
  in the output directory before the run, here one named for 1978, becomes a 37th frame.
\<close>

theorem animation_stale_frame_counterexample:
  "animation_frames (\<lambda>y. y) (Dir [(''Correlation_of_Pr_CMIP6_vs_ERA5_1978.png'', PNG 1978)])
     = Some (1978 # frame_years) \<and>
   length (1978 # frame_years) = 37"
  using animation_frames_stale_1978 [of "\<lambda>y. y" 1978]
  by (simp add: frame_name_1978 length_frame_years)

text \<open>
  Claim C6, amended: when the output directory is absent at the start, or lists each name
  once and holds no entry matching the frame pattern other than the 36 frame names, a run
  that completes leaves an animation of exactly 36 frames, those of 1979 to 2014 in
  ascending order. The order is that of the file names: the 36 paths are strictly
  ascending as strings, so sorting them from any listing order gives the year order.
\<close>

theorem animation_in_year_order:
  assumes "node = Absent \<and> es = [] \<or> node = Dir es"
    and "distinct (map fst es)"
    and "\<forall>n \<in> set (map fst es). fnmatch_frame n \<longrightarrow> n \<in> frame_name ` {1979..2014}"
    and "make_animation render node = Inr node'"
  shows "entry_at node' ''output/correlation.gif'' = Some (GIF (map render [1979..2014])) \<and>
         length (map render [1979..2014]) = 36 \<and>
         sorted_wrt (<) (map frame_path [1979..2014]) \<and>
         (\<forall>ps. mset ps = mset (map frame_path [1979..2014]) \<longrightarrow>
               sort ps = map frame_path [1979..2014])"
proof -
  from assms(4) obtain es' imgs where es': "node = Absent \<and> es' = [] \<or> node = Dir es'"
    and nosub: "\<forall>y \<in> set frame_years. map_of es' (frame_name y) \<noteq> Some SubDir"
    and gif: "map_of es' ''correlation.gif'' \<noteq> Some SubDir"
    by (rule make_animation_Inr)
  from es' assms(1) have same: "es' = es" by auto
  have start: "make_animation render node = make_animation render (Dir es)"
    using assms(1) by (auto simp: make_animation_def make_frames_Absent)
  have clean: "\<forall>n \<in> set (map fst es). fnmatch_frame n \<longrightarrow> n \<in> frame_name ` set frame_years"
    using assms(3) by (simp only: set_frame_years)
  have "make_animation render (Dir es) =
     Inr (Dir (filter (\<lambda>p. \<not> fnmatch_frame (fst p))
       (AList.update ''correlation.gif'' (GIF (map render frame_years))
         (AList.updates (map frame_name frame_years)
            (map (\<lambda>y. PNG (render y)) frame_years) es))))"
    using assms(2) clean nosub gif unfolding same by (rule make_animation_clean)
  with assms(4) start have n': "node' = Dir (filter (\<lambda>p. \<not> fnmatch_frame (fst p))
       (AList.update ''correlation.gif'' (GIF (map render frame_years))
         (AList.updates (map frame_name frame_years)
            (map (\<lambda>y. PNG (render y)) frame_years) es)))"
    by simp
  have a: "entry_at node' ''output/correlation.gif'' = Some (GIF (map render frame_years))"
    unfolding n' entry_at_gif by (rule gif_after_cleanup)
  have l: "length (map render frame_years) = 36"
    using length_frame_years by (simp only: length_map)
  have sd: "sorted (map frame_path frame_years)"
    using sorted_frame_years by (simp only: strict_sorted_iff)
  have srt: "\<forall>ps. mset ps = mset (map frame_path frame_years) \<longrightarrow>
      sort ps = map frame_path frame_years"
  proof (intro allI impI)
    fix ps :: "string list"
    assume "mset ps = mset (map frame_path frame_years)"
    then have "mset (map frame_path frame_years) = mset ps" by (rule sym)
    then show "sort ps = map frame_path frame_years"
      using sd by (rule properties_for_sort)
  qed
  from a l sorted_frame_years srt show ?thesis
    unfolding frame_years_upto by blast
qed

text \<open>A run from a working directory without \<^verbatim>\<open>output\<close>.\<close>

theorem animation_in_year_order_witness:
  "entry_at (Dir (filter (\<lambda>p. \<not> fnmatch_frame (fst p))
       (AList.update ''correlation.gif'' (GIF frame_years)
         (AList.updates (map frame_name frame_years) (map PNG frame_years) []))))
     ''output/correlation.gif'' = Some (GIF [1979..2014])"
proof -
  have "make_animation (\<lambda>y. y) (Dir []) =
     Inr (Dir (filter (\<lambda>p. \<not> fnmatch_frame (fst p))
       (AList.update ''correlation.gif'' (GIF (map (\<lambda>y. y) frame_years))
         (AList.updates (map frame_name frame_years)
            (map (\<lambda>y. PNG y) frame_years) []))))"
    by (rule make_animation_clean) simp_all
  then have run: "make_animation (\<lambda>y. y) Absent =
     Inr (Dir (filter (\<lambda>p. \<not> fnmatch_frame (fst p))
       (AList.update ''correlation.gif'' (GIF frame_years)
         (AList.updates (map frame_name frame_years) (map PNG frame_years) []))))"
    by (simp add: make_animation_def make_frames_Absent)
  have start: "(Absent :: int node) = Absent \<and> ([] :: (string \<times> int entry) list) = [] \<or>
      (Absent :: int node) = Dir []" by simp
  show ?thesis
    using animation_in_year_order [OF start _ _ run] by simp
qed

end
